theory Spec2Isabelle
  imports Main "HOL-Library.AList"
begin

section \<open>Python values used by the builder\<close>

text \<open>
  Every exception the builder can raise is a value. \<open>AssertionError\<close> carries the message of
  the failing \<^verbatim>\<open>assert\<close>; \<open>AttributeError\<close> is an attribute read on a node of another class
  (\<^verbatim>\<open>.quoted\<close> on a node that is no identifier, \<^verbatim>\<open>.kind\<close> on a node that is no column
  constraint); \<open>IndexError\<close> is \<^verbatim>\<open>expressions[0]\<close> on an empty list; \<open>ParseError\<close> is whatever
  the SQL parser raises on malformed text.
\<close>

datatype error = AssertionError string | AttributeError | IndexError | ParseError

definition and_then :: "error + 'a \<Rightarrow> ('a \<Rightarrow> error + 'b) \<Rightarrow> error + 'b" where
  "and_then m f = (case m of Inl e \<Rightarrow> Inl e | Inr x \<Rightarrow> f x)"

fun map_result :: "('a \<Rightarrow> error + 'b) \<Rightarrow> 'a list \<Rightarrow> error + 'b list" where
  "map_result f [] = Inr []"
| "map_result f (x # xs) =
     (case f x of
        Inl e \<Rightarrow> Inl e
      | Inr y \<Rightarrow> (case map_result f xs of Inl e \<Rightarrow> Inl e | Inr ys \<Rightarrow> Inr (y # ys)))"

text \<open>
  Strings are lists of 8-bit characters; \<^verbatim>\<open>str.lower\<close> and \<^verbatim>\<open>str.upper\<close> are modelled on
  the ASCII letters and leave every other character alone.
\<close>

definition lower_char :: "char \<Rightarrow> char" where
  "lower_char c =
     (let n = (of_char c :: nat) in if 65 \<le> n \<and> n \<le> 90 then char_of (n + 32) else c)"

definition upper_char :: "char \<Rightarrow> char" where
  "upper_char c =
     (let n = (of_char c :: nat) in if 97 \<le> n \<and> n \<le> 122 then char_of (n - 32) else c)"

definition lower :: "string \<Rightarrow> string" where
  "lower s = map lower_char s"

definition upper :: "string \<Rightarrow> string" where
  "upper s = map upper_char s"

text \<open>
  \<^verbatim>\<open>int(text)\<close>, for a text of code points below 256: blanks at both ends are dropped (the
  characters 9 to 13, 32, 133 and 160), then comes an optional sign, then decimal digits,
  in which single underscores may stand between two digits. Anything else (\<^verbatim>\<open>10.5\<close>, \<^verbatim>\<open>1e3\<close>,
  \<^verbatim>\<open>1__0\<close>, \<^verbatim>\<open>- 5\<close>) makes \<^verbatim>\<open>int\<close> raise \<^verbatim>\<open>ValueError\<close>, which \<^verbatim>\<open>Literal.is_int\<close> turns into
  \<^verbatim>\<open>False\<close>; this is \<open>None\<close> here.
\<close>

definition is_digit :: "char \<Rightarrow> bool" where
  "is_digit c = (48 \<le> (of_char c :: nat) \<and> (of_char c :: nat) \<le> 57)"

definition is_int_space :: "char \<Rightarrow> bool" where
  "is_int_space c = ((of_char c :: nat) \<in> {9, 10, 11, 12, 13, 32, 133, 160})"

fun single_underscores :: "string \<Rightarrow> bool" where
  "single_underscores (a # b # rest) =
     (\<not> (a = CHR ''_'' \<and> b = CHR ''_'') \<and> single_underscores (b # rest))"
| "single_underscores s = True"

definition digits_ok :: "string \<Rightarrow> bool" where
  "digits_ok s =
     (s \<noteq> [] \<and> is_digit (hd s) \<and> is_digit (last s)
      \<and> list_all (\<lambda>c. is_digit c \<or> c = CHR ''_'') s \<and> single_underscores s)"

definition digits_value :: "string \<Rightarrow> int" where
  "digits_value s = foldl (\<lambda>acc c. 10 * acc + (int (of_char c) - 48)) 0 (filter is_digit s)"

definition py_int :: "string \<Rightarrow> int option" where
  "py_int s =
     (let t = rev (dropWhile is_int_space (rev (dropWhile is_int_space s)))
      in case t of
           [] \<Rightarrow> None
         | c # rest \<Rightarrow>
             if c = CHR ''-'' then (if digits_ok rest then Some (- digits_value rest) else None)
             else if c = CHR ''+'' then (if digits_ok rest then Some (digits_value rest) else None)
             else if digits_ok t then Some (digits_value t) else None)"

section \<open>The syntax tree handed over by the SQL parser\<close>

text \<open>
  \<^verbatim>\<open>sqlglot\<close> is an external library; the builder sees its trees through the node classes
  it tests with \<^verbatim>\<open>isinstance\<close> and the attributes it reads. One constructor stands for each
  class the source names, with the arguments the source reads, in the order in which the
  parser stores them (the order in which a traversal visits them):
  \<^item> \<open>Identifier this quoted\<close>;
  \<^item> \<open>Literal this is_string\<close>;
  \<^item> \<open>DataType this expressions\<close>, \<open>this\<close> being the \<^verbatim>\<open>.value\<close> of the type keyword;
  \<^item> \<open>Table this db\<close>;
  \<^item> \<open>Schema this expressions\<close>;
  \<^item> \<open>Column this\<close>;
  \<^item> \<open>ColumnDef this kind constraints\<close>;
  \<^item> \<open>ColumnConstraint this kind\<close>, \<open>this\<close> being the optional constraint name;
  \<^item> \<open>PrimaryKeyColumnConstraint\<close>, \<open>NotNullColumnConstraint\<close>;
  \<^item> \<open>UniqueColumnConstraint this\<close>: the class has no \<^verbatim>\<open>expressions\<close> argument, the column
    list of \<^verbatim>\<open>UNIQUE (a, b)\<close> is the \<open>Schema\<close> stored under \<open>this\<close>, and an inline \<^verbatim>\<open>UNIQUE\<close>
    marker has no \<open>this\<close>;
  \<^item> \<open>Reference this\<close>;
  \<^item> \<open>ForeignKey expressions reference\<close>;
  \<^item> \<open>PrimaryKey expressions\<close>;
  \<^item> \<open>Create this kind rest\<close>, \<open>rest\<close> being the child nodes stored after \<open>this\<close>;
  \<^item> \<open>Other class_name children\<close>: a node of any other class (\<^verbatim>\<open>Ordered\<close>, \<^verbatim>\<open>Constraint\<close>,
    \<^verbatim>\<open>DataTypeParam\<close>, \<^verbatim>\<open>Select\<close>, ...), which the builder only traverses.
\<close>

datatype exp =
    Identifier string bool
  | Literal string bool
  | DataType string "exp list"
  | Table "exp option" "exp option"
  | Schema "exp option" "exp list"
  | Column "exp option"
  | ColumnDef "exp option" "exp option" "exp list"
  | ColumnConstraint "exp option" exp
  | PrimaryKeyColumnConstraint
  | UniqueColumnConstraint "exp option"
  | NotNullColumnConstraint
  | Reference "exp option"
  | ForeignKey "exp list" "exp option"
  | PrimaryKey "exp list"
  | Create "exp option" "string option" "exp list"
  | Other string "exp list"

datatype exp_class =
    Identifier_cls | Literal_cls | DataType_cls | Table_cls | Schema_cls | Column_cls
  | ColumnDef_cls | ColumnConstraint_cls | PrimaryKeyColumnConstraint_cls
  | UniqueColumnConstraint_cls | NotNullColumnConstraint_cls | Reference_cls
  | ForeignKey_cls | PrimaryKey_cls | Create_cls | Other_cls string

fun class_of :: "exp \<Rightarrow> exp_class" where
  "class_of (Identifier n q) = Identifier_cls"
| "class_of (Literal n s) = Literal_cls"
| "class_of (DataType t es) = DataType_cls"
| "class_of (Table this db) = Table_cls"
| "class_of (Schema this es) = Schema_cls"
| "class_of (Column this) = Column_cls"
| "class_of (ColumnDef this kind cs) = ColumnDef_cls"
| "class_of (ColumnConstraint this kind) = ColumnConstraint_cls"
| "class_of PrimaryKeyColumnConstraint = PrimaryKeyColumnConstraint_cls"
| "class_of (UniqueColumnConstraint this) = UniqueColumnConstraint_cls"
| "class_of NotNullColumnConstraint = NotNullColumnConstraint_cls"
| "class_of (Reference this) = Reference_cls"
| "class_of (ForeignKey es r) = ForeignKey_cls"
| "class_of (PrimaryKey es) = PrimaryKey_cls"
| "class_of (Create this kind rest) = Create_cls"
| "class_of (Other c es) = Other_cls c"

definition isinstance :: "exp \<Rightarrow> exp_class \<Rightarrow> bool" where
  "isinstance e c = (class_of e = c)"

fun args_of :: "exp option \<Rightarrow> exp list" where
  "args_of None = []"
| "args_of (Some e) = [e]"

text \<open>\<^verbatim>\<open>Expression.iter_expressions\<close>: the child nodes, in the order of the arguments.\<close>

fun children :: "exp \<Rightarrow> exp list" where
  "children (Identifier n q) = []"
| "children (Literal n s) = []"
| "children (DataType t es) = es"
| "children (Table this db) = args_of this @ args_of db"
| "children (Schema this es) = args_of this @ es"
| "children (Column this) = args_of this"
| "children (ColumnDef this kind cs) = args_of this @ args_of kind @ cs"
| "children (ColumnConstraint this kind) = args_of this @ [kind]"
| "children PrimaryKeyColumnConstraint = []"
| "children (UniqueColumnConstraint this) = args_of this"
| "children NotNullColumnConstraint = []"
| "children (Reference this) = args_of this"
| "children (ForeignKey es r) = es @ args_of r"
| "children (PrimaryKey es) = es"
| "children (Create this kind rest) = args_of this @ rest"
| "children (Other c es) = es"

text \<open>
  \<^verbatim>\<open>Expression.bfs\<close>: a queue that starts with the node; the node at the front is yielded and
  its children are appended at the back. \<^verbatim>\<open>find_all(*expression_types, bfs=True)\<close> and
  \<^verbatim>\<open>find(*expression_types, bfs=True)\<close> traverse breadth-first unless they are told
  otherwise, and the source never passes \<^verbatim>\<open>bfs\<close>: \<open>find_all\<close> yields the nodes of the class
  in this order, \<open>find_exp\<close> (\<^verbatim>\<open>find\<close>) the first of them.
\<close>

function bfs :: "exp list \<Rightarrow> exp list" where
  "bfs [] = []"
| "bfs (e # queue) = e # bfs (queue @ children e)"
  by pat_completeness auto
termination
proof (relation "measure (\<lambda>q. sum_list (map (\<lambda>c. Suc (size c)) q))")
  fix e :: exp and queue :: "exp list"
  have opt: "sum_list (map (\<lambda>c. Suc (size c)) (args_of x)) \<le> size_option size x" for x
    by (cases x) simp_all
  have lst: "sum_list (map (\<lambda>c. Suc (size c)) es) = size_list size es" for es :: "exp list"
    by (induction es) simp_all
  have "sum_list (map (\<lambda>c. Suc (size c)) (children e)) \<le> size e"
  proof (cases e)
    case (Table this db)
    then show ?thesis using opt [of this] opt [of db] by simp
  next
    case (Schema this es)
    then show ?thesis using opt [of this] by (simp add: lst)
  next
    case (Column this)
    then show ?thesis using opt [of this] by simp
  next
    case (ColumnDef this kind cs)
    then show ?thesis using opt [of this] opt [of kind] by (simp add: lst)
  next
    case (ColumnConstraint this kind)
    then show ?thesis using opt [of this] by simp
  next
    case (UniqueColumnConstraint this)
    then show ?thesis using opt [of this] by simp
  next
    case (Reference this)
    then show ?thesis using opt [of this] by simp
  next
    case (ForeignKey es r)
    then show ?thesis using opt [of r] by (simp add: lst)
  next
    case (Create this kind rest)
    then show ?thesis using opt [of this] by (simp add: lst)
  qed (simp_all add: lst)
  then show "(queue @ children e, e # queue)
      \<in> measure (\<lambda>q. sum_list (map (\<lambda>c. Suc (size c)) q))"
    by simp
qed simp

definition find_all :: "exp_class \<Rightarrow> exp \<Rightarrow> exp list" where
  "find_all c e = filter (\<lambda>x. isinstance x c) (bfs [e])"

definition find_exp :: "exp_class \<Rightarrow> exp \<Rightarrow> exp option" where
  "find_exp c e = (case find_all c e of [] \<Rightarrow> None | x # _ \<Rightarrow> Some x)"

text \<open>
  \<^verbatim>\<open>.this\<close> and \<^verbatim>\<open>.expressions\<close> are defined on every node: the argument of that name,
  \<^verbatim>\<open>None\<close> (or the empty list) when the node has none. The builder reads \<open>this\<close> only on
  tables, column definitions, columns, references, schemas and unique constraints, where
  it is a node or absent (on an identifier, a literal or a type it is a text, which
  \<open>this\<close> does not return).
\<close>

fun this :: "exp \<Rightarrow> exp option" where
  "this (Table t db) = t"
| "this (Schema t es) = t"
| "this (Column t) = t"
| "this (ColumnDef t kind cs) = t"
| "this (ColumnConstraint t kind) = t"
| "this (UniqueColumnConstraint t) = t"
| "this (Reference t) = t"
| "this (Create t kind rest) = t"
| "this _ = None"

fun expressions :: "exp \<Rightarrow> exp list" where
  "expressions (DataType t es) = es"
| "expressions (Schema t es) = es"
| "expressions (ForeignKey es r) = es"
| "expressions (PrimaryKey es) = es"
| "expressions _ = []"

text \<open>
  \<^verbatim>\<open>.kind\<close> exists on a column definition (its type, when it has one) and on a column
  constraint; reading it on another node raises.
\<close>

fun kind :: "exp \<Rightarrow> error + exp option" where
  "kind (ColumnDef t k cs) = Inr k"
| "kind (ColumnConstraint t k) = Inr (Some k)"
| "kind _ = Inl AttributeError"

fun constraints :: "exp \<Rightarrow> exp list" where
  "constraints (ColumnDef t k cs) = cs"
| "constraints _ = []"

text \<open>
  \<^verbatim>\<open>Table.db\<close> is the property \<^verbatim>\<open>self.text("db")\<close>: the text of the schema qualifier (an
  identifier in every tree the parser builds) as a \<^verbatim>\<open>str\<close>, the empty string when the table
  is unqualified. It is never a node.
\<close>

fun db :: "exp \<Rightarrow> string" where
  "db (Table t (Some (Identifier n q))) = n"
| "db (Table t (Some (Literal n s))) = n"
| "db _ = []"

text \<open>\<^verbatim>\<open>str(x)\<close> of an attribute: the SQL text of a node (the generator \<open>sql\<close>), or \<^verbatim>\<open>'None'\<close>.\<close>

fun str :: "(exp \<Rightarrow> string) \<Rightarrow> exp option \<Rightarrow> string" where
  "str sql None = ''None''"
| "str sql (Some e) = sql e"

section \<open>Name normalisation and type extraction\<close>

fun get_identifier_name :: "exp \<Rightarrow> error + string" where
  "get_identifier_name (Identifier name quoted) = Inr (if quoted then name else lower name)"
| "get_identifier_name _ = Inl AttributeError"

definition get_table_name :: "(exp \<Rightarrow> string) \<Rightarrow> exp \<Rightarrow> error + string" where
  "get_table_name sql table_exp =
     (case this table_exp of
        Some (Identifier n q) \<Rightarrow> get_identifier_name (Identifier n q)
      | t \<Rightarrow> Inr (lower (str sql t)))"

text \<open>
  In \<^verbatim>\<open>_get_schema_name\<close> the test \<^verbatim>\<open>isinstance(table_exp.db, exp.Identifier)\<close> is applied to
  a \<^verbatim>\<open>str\<close>, so its branch is never taken and the name is \<^verbatim>\<open>str(table_exp.db).lower()\<close>.
\<close>

definition get_schema_name :: "exp \<Rightarrow> string \<Rightarrow> string" where
  "get_schema_name table_exp default_schema =
     (if db table_exp \<noteq> [] then lower (db table_exp) else default_schema)"

definition get_column_name :: "(exp \<Rightarrow> string) \<Rightarrow> exp \<Rightarrow> error + string" where
  "get_column_name sql column_exp =
     (case this column_exp of
        Some (Identifier n q) \<Rightarrow> get_identifier_name (Identifier n q)
      | t \<Rightarrow> Inr (lower (str sql t)))"

text \<open>\<^verbatim>\<open>isinstance(e, exp.Literal) and e.is_int\<close>, and then \<^verbatim>\<open>int(e.name)\<close>.\<close>

fun literal_int :: "exp \<Rightarrow> int option" where
  "literal_int (Literal name is_string) = (if is_string then None else py_int name)"
| "literal_int _ = None"

definition numeric_types :: "string set" where
  "numeric_types = {''DECIMAL'', ''NUMERIC'', ''NUMBER'', ''FLOAT''}"

definition extract_datatype :: "exp \<Rightarrow> error + (string \<times> int option \<times> int option)" where
  "extract_datatype column_exp =
     (case kind column_exp of
        Inr (Some (DataType datatype es)) \<Rightarrow>
          Inr (datatype,
               (if es \<noteq> [] \<and> datatype \<in> numeric_types \<and> length es \<ge> 1
                then literal_int (es ! 0) else None),
               (if es \<noteq> [] \<and> datatype \<in> numeric_types \<and> length es = 2
                then literal_int (es ! 1) else None))
      | Inr _ \<Rightarrow> Inl (AssertionError ''Expected DataType expression in ColumnDef'')
      | Inl e \<Rightarrow> Inl e)"

section \<open>The catalog\<close>

text \<open>
  Modelled from the spec: the modules \<^verbatim>\<open>sqlscope.catalog.catalog\<close> and
  \<^verbatim>\<open>sqlscope.catalog.constraint\<close> (classes \<^verbatim>\<open>Catalog\<close>, \<^verbatim>\<open>Schema\<close>, \<^verbatim>\<open>Table\<close>, \<^verbatim>\<open>Column\<close>,
  \<^verbatim>\<open>UniqueConstraint\<close>, \<^verbatim>\<open>ConstraintType\<close>) are not among the sources. Following the
  data model of the specification, a catalog is an ordered mapping from schema names to
  schemas, a schema an ordered mapping from table names to tables, and a table owns its
  columns in insertion order and its constraints. Looking a schema or a table up creates
  it when it is absent; \<^verbatim>\<open>add_column\<close> appends a column without looking for a column of
  the same name, and \<^verbatim>\<open>add_unique_constraint\<close> appends a constraint without looking for
  an equal one.
\<close>

text \<open>Modelled from the spec: \<^verbatim>\<open>ConstraintType\<close>, the two kinds of constraint.\<close>

datatype constraint_type = PRIMARY_KEY | UNIQUE

text \<open>
  Modelled from the spec: \<^verbatim>\<open>Column\<close>, \<^verbatim>\<open>UniqueConstraint\<close> and \<^verbatim>\<open>Table\<close>, with the attributes
  that the builder passes to \<^verbatim>\<open>add_column\<close> and \<^verbatim>\<open>add_unique_constraint\<close>.
\<close>

record column =
  name :: string
  column_type :: string
  real_name :: string
  numeric_precision :: "int option"
  numeric_scale :: "int option"
  is_nullable :: bool
  fk_schema :: "string option"
  fk_table :: "string option"
  fk_column :: "string option"

record unique_constraint =
  columns :: "string set"
  constraint_type :: constraint_type

record table =
  table_columns :: "column list"
  unique_constraints :: "unique_constraint list"

text \<open>
  Modelled from the spec: \<^verbatim>\<open>Schema\<close> and \<^verbatim>\<open>Catalog\<close>, ordered mappings (a new key is put
  at the end), and the catalog that \<^verbatim>\<open>Catalog()\<close> creates.
\<close>

type_synonym schema = "(string \<times> table) list"

type_synonym catalog = "(string \<times> schema) list"

definition Catalog :: catalog where
  "Catalog = []"

text \<open>
  Modelled from the spec: the lookup \<^verbatim>\<open>catalog[schema_name][table_name]\<close>, which creates the
  schema and the table when they are absent. \<open>get_table\<close> is the table that the lookup
  returns, \<open>set_table\<close> the catalog after a change of that table.
\<close>

definition empty_table :: table where
  "empty_table = \<lparr>table_columns = [], unique_constraints = []\<rparr>"

definition get_schema :: "catalog \<Rightarrow> string \<Rightarrow> schema" where
  "get_schema catalog schema_name =
     (case map_of catalog schema_name of None \<Rightarrow> [] | Some s \<Rightarrow> s)"

definition get_table :: "catalog \<Rightarrow> string \<Rightarrow> string \<Rightarrow> table" where
  "get_table catalog schema_name table_name =
     (case map_of (get_schema catalog schema_name) table_name of
        None \<Rightarrow> empty_table
      | Some t \<Rightarrow> t)"

definition set_table :: "catalog \<Rightarrow> string \<Rightarrow> string \<Rightarrow> table \<Rightarrow> catalog" where
  "set_table catalog schema_name table_name t =
     AList.update schema_name
       (AList.update table_name t (get_schema catalog schema_name)) catalog"

text \<open>
  Modelled from the spec: \<^verbatim>\<open>add_column\<close> and \<^verbatim>\<open>add_unique_constraint\<close> of the table that the
  lookup returns; both append, without a check for duplicates.
\<close>

definition add_column :: "catalog \<Rightarrow> string \<Rightarrow> string \<Rightarrow> column \<Rightarrow> catalog" where
  "add_column catalog schema_name table_name c =
     (let t = get_table catalog schema_name table_name
      in set_table catalog schema_name table_name
           (t\<lparr>table_columns := table_columns t @ [c]\<rparr>))"

definition add_unique_constraint ::
  "catalog \<Rightarrow> string \<Rightarrow> string \<Rightarrow> string set \<Rightarrow> constraint_type \<Rightarrow> catalog" where
  "add_unique_constraint catalog schema_name table_name cols ct =
     (let t = get_table catalog schema_name table_name
      in set_table catalog schema_name table_name
           (t\<lparr>unique_constraints :=
                unique_constraints t @ [\<lparr>columns = cols, constraint_type = ct\<rparr>]\<rparr>))"

section \<open>The DDL builder\<close>

text \<open>
  \<^verbatim>\<open>any(isinstance(c.kind, K) for c in constraints)\<close>: the generator stops at the first
  constraint of kind \<open>K\<close>; an element before it that has no \<^verbatim>\<open>.kind\<close> raises.
\<close>

fun any_kind :: "exp_class \<Rightarrow> exp list \<Rightarrow> error + bool" where
  "any_kind K [] = Inr False"
| "any_kind K (c # cs) =
     (case kind c of
        Inl e \<Rightarrow> Inl e
      | Inr None \<Rightarrow> any_kind K cs
      | Inr (Some k) \<Rightarrow> if isinstance k K then Inr True else any_kind K cs)"

text \<open>\<^verbatim>\<open>next((c for c in constraints if isinstance(c.kind, K)), None)\<close>.\<close>

fun next_kind :: "exp_class \<Rightarrow> exp list \<Rightarrow> error + exp option" where
  "next_kind K [] = Inr None"
| "next_kind K (c # cs) =
     (case kind c of
        Inl e \<Rightarrow> Inl e
      | Inr None \<Rightarrow> next_kind K cs
      | Inr (Some k) \<Rightarrow> if isinstance k K then Inr (Some c) else next_kind K cs)"

type_synonym reference = "string \<times> string \<times> string"

type_synonym fk_fields = "string option \<times> string option \<times> string option"

text \<open>
  The body of the loop over the table-level \<^verbatim>\<open>FOREIGN KEY\<close> clauses (source lines 104 to
  124): the entries of one clause are written into the mapping \<open>fks\<close> in the order of the
  clause's column list.
\<close>

definition foreign_key_entries ::
  "(exp \<Rightarrow> string) \<Rightarrow> string \<Rightarrow> exp \<Rightarrow> error + (string \<times> reference) list" where
  "foreign_key_entries sql search_path fk_exp =
     and_then (map_result get_identifier_name (expressions fk_exp)) (\<lambda>fk_column_names.
       case find_exp Reference_cls fk_exp of
         None \<Rightarrow> Inl (AssertionError ''Expected Reference expression in Foreign Key definition'')
       | Some ref_exp \<Rightarrow>
          (case this ref_exp of
             Some (Schema ref_this ref_id_exps) \<Rightarrow>
               (case ref_this of
                  Some (Table t d) \<Rightarrow>
                    and_then (get_table_name sql (Table t d)) (\<lambda>ref_table_name.
                    and_then (map_result get_identifier_name ref_id_exps) (\<lambda>ref_column_names.
                      Inr (map (\<lambda>(fk_col_name, ref_col_name).
                                 (fk_col_name,
                                  (get_schema_name (Table t d) search_path,
                                   ref_table_name, ref_col_name)))
                             (zip fk_column_names ref_column_names))))
                | _ \<Rightarrow> Inl (AssertionError
                         ''Expected Table expression in Foreign Key reference''))
           | _ \<Rightarrow> Inl (AssertionError
                    ''Expected Schema expression in Foreign Key reference'')))"

fun assign_all :: "(string \<rightharpoonup> reference) \<Rightarrow> (string \<times> reference) list \<Rightarrow> (string \<rightharpoonup> reference)" where
  "assign_all fks [] = fks"
| "assign_all fks ((k, v) # kvs) = assign_all (fks(k \<mapsto> v)) kvs"

fun process_foreign_keys ::
  "(exp \<Rightarrow> string) \<Rightarrow> string \<Rightarrow> (string \<rightharpoonup> reference) \<Rightarrow> exp list
     \<Rightarrow> error + (string \<rightharpoonup> reference)" where
  "process_foreign_keys sql search_path fks [] = Inr fks"
| "process_foreign_keys sql search_path fks (fk_exp # fk_exps) =
     (case foreign_key_entries sql search_path fk_exp of
        Inl e \<Rightarrow> Inl e
      | Inr entries \<Rightarrow>
          process_foreign_keys sql search_path (assign_all fks entries) fk_exps)"

text \<open>The reference of an inline \<^verbatim>\<open>REFERENCES\<close> constraint (source lines 147 to 161).\<close>

definition inline_reference ::
  "(exp \<Rightarrow> string) \<Rightarrow> string \<Rightarrow> exp \<Rightarrow> error + fk_fields" where
  "inline_reference sql search_path fk_constraint =
     (case kind fk_constraint of
        Inr (Some (Reference fk_this)) \<Rightarrow>
          (case fk_this of
             Some (Schema fk_schema_this fk_expressions) \<Rightarrow>
               (case fk_schema_this of
                  Some (Table t d) \<Rightarrow>
                    and_then (get_table_name sql (Table t d)) (\<lambda>fk_table_name.
                      case fk_expressions of
                        [] \<Rightarrow> Inl IndexError
                      | Identifier n q # _ \<Rightarrow>
                          and_then (get_identifier_name (Identifier n q)) (\<lambda>fk_column_name.
                            Inr (Some (get_schema_name (Table t d) search_path),
                                 Some fk_table_name, Some fk_column_name))
                      | _ \<Rightarrow> Inl (AssertionError
                               ''Expected Identifier expression in Foreign Key column''))
                | _ \<Rightarrow> Inl (AssertionError
                         ''Expected Table expression in Foreign Key constraint''))
           | _ \<Rightarrow> Inl (AssertionError
                    ''Expected Schema expression in Foreign Key constraint''))
      | Inr _ \<Rightarrow> Inl (AssertionError
                 ''Expected Reference expression in Foreign Key constraint'')
      | Inl e \<Rightarrow> Inl e)"

text \<open>Foreign key handling of one column (source lines 144 to 167).\<close>

definition resolve_foreign_key ::
  "(exp \<Rightarrow> string) \<Rightarrow> string \<Rightarrow> (string \<rightharpoonup> reference) \<Rightarrow> exp \<Rightarrow> string
     \<Rightarrow> error + fk_fields" where
  "resolve_foreign_key sql search_path fks column_exp column_name =
     (case next_kind Reference_cls (constraints column_exp) of
        Inl e \<Rightarrow> Inl e
      | Inr (Some fk_constraint) \<Rightarrow> inline_reference sql search_path fk_constraint
      | Inr None \<Rightarrow>
          (case fks column_name of
             Some (fk_schema_name, fk_table_name, fk_column_name) \<Rightarrow>
               Inr (Some fk_schema_name, Some fk_table_name, Some fk_column_name)
           | None \<Rightarrow> Inr (None, None, None)))"

text \<open>
  One pass of the loop over the column definitions (source lines 128 to 182), up to the
  call of \<^verbatim>\<open>add_column\<close>: the column that is emitted, and whether it carries an inline
  \<^verbatim>\<open>PRIMARY KEY\<close> and an inline \<^verbatim>\<open>UNIQUE\<close> marker.
\<close>

definition column_info ::
  "(exp \<Rightarrow> string) \<Rightarrow> string \<Rightarrow> (string \<rightharpoonup> reference) \<Rightarrow> exp
     \<Rightarrow> error + (column \<times> bool \<times> bool)" where
  "column_info sql search_path fks column_exp =
     and_then (get_column_name sql column_exp) (\<lambda>column_name.
     and_then (any_kind PrimaryKeyColumnConstraint_cls (constraints column_exp)) (\<lambda>is_pk.
     and_then (any_kind UniqueColumnConstraint_cls (constraints column_exp)) (\<lambda>is_unique.
     and_then (any_kind NotNullColumnConstraint_cls (constraints column_exp)) (\<lambda>is_not_null.
     and_then (resolve_foreign_key sql search_path fks column_exp column_name)
       (\<lambda>(fk_schema_name, fk_table_name, fk_column_name).
     and_then (extract_datatype column_exp)
       (\<lambda>(column_type, numeric_precision, numeric_scale).
         Inr (\<lparr>name = column_name, column_type = column_type, real_name = column_name,
               numeric_precision = numeric_precision, numeric_scale = numeric_scale,
               is_nullable = (\<not> is_not_null), fk_schema = fk_schema_name,
               fk_table = fk_table_name, fk_column = fk_column_name\<rparr>,
              is_pk, is_unique)))))))"

type_synonym build_state = "catalog \<times> string set \<times> string set list"

fun process_columns ::
  "(exp \<Rightarrow> string) \<Rightarrow> string \<Rightarrow> (string \<rightharpoonup> reference) \<Rightarrow> string \<Rightarrow> string
     \<Rightarrow> build_state \<Rightarrow> exp list \<Rightarrow> error + build_state" where
  "process_columns sql search_path fks schema_name table_name st [] = Inr st"
| "process_columns sql search_path fks schema_name table_name
     (catalog, pk_col_names, unique_col_names) (column_exp # column_exps) =
     (case column_info sql search_path fks column_exp of
        Inl e \<Rightarrow> Inl e
      | Inr (c, is_pk, is_unique) \<Rightarrow>
          process_columns sql search_path fks schema_name table_name
            (add_column catalog schema_name table_name c,
             (if is_pk then insert (name c) pk_col_names else pk_col_names),
             (if is_unique then unique_col_names @ [{name c}] else unique_col_names))
            column_exps)"

text \<open>The table-level \<^verbatim>\<open>PRIMARY KEY\<close> node (source lines 185 to 190).\<close>

definition primary_key_column :: "(exp \<Rightarrow> string) \<Rightarrow> exp \<Rightarrow> error + string" where
  "primary_key_column sql ordered_exp =
     (case find_exp Column_cls ordered_exp of
        None \<Rightarrow> Inl (AssertionError ''Expected Column expression in Primary Key definition'')
      | Some col_exp \<Rightarrow> get_column_name sql col_exp)"

definition process_primary_key ::
  "(exp \<Rightarrow> string) \<Rightarrow> exp option \<Rightarrow> string set \<Rightarrow> error + string set" where
  "process_primary_key sql pk_exp pk_col_names =
     (case pk_exp of
        None \<Rightarrow> Inr pk_col_names
      | Some p \<Rightarrow>
          and_then (map_result (primary_key_column sql) (expressions p)) (\<lambda>col_names.
            Inr (pk_col_names \<union> set col_names)))"

text \<open>
  The nodes found by \<^verbatim>\<open>find_all(exp.UniqueColumnConstraint)\<close> (source lines 193 to 201).
  The column names are read from \<^verbatim>\<open>unique_exp.expressions\<close>, not from the schema that was
  just checked.
\<close>

definition unique_columns :: "exp \<Rightarrow> error + string set" where
  "unique_columns unique_exp =
     (case this unique_exp of
        Some (Schema t es) \<Rightarrow>
          and_then (map_result get_identifier_name (expressions unique_exp)) (\<lambda>col_names.
            Inr (set col_names))
      | _ \<Rightarrow> Inl (AssertionError ''Expected Schema expression in Unique constraint''))"

definition process_uniques ::
  "exp list \<Rightarrow> string set list \<Rightarrow> error + string set list" where
  "process_uniques unique_exps unique_col_names =
     and_then (map_result unique_columns unique_exps) (\<lambda>sets.
       Inr (unique_col_names @ sets))"

text \<open>Emission of the constraints (source lines 205 to 217).\<close>

definition add_unique_constraints ::
  "catalog \<Rightarrow> string \<Rightarrow> string \<Rightarrow> string set list \<Rightarrow> catalog" where
  "add_unique_constraints catalog schema_name table_name unique_col_names =
     foldl (\<lambda>cat unique_col_name_set.
              add_unique_constraint cat schema_name table_name unique_col_name_set UNIQUE)
       catalog unique_col_names"

definition emit_constraints ::
  "catalog \<Rightarrow> string \<Rightarrow> string \<Rightarrow> string set \<Rightarrow> string set list \<Rightarrow> error + catalog" where
  "emit_constraints catalog schema_name table_name pk_col_names unique_col_names =
     (if pk_col_names = {}
      then Inl (AssertionError ''Primary Key columns should have been identified'')
      else Inr (add_unique_constraints
                  (add_unique_constraint catalog schema_name table_name pk_col_names
                     PRIMARY_KEY)
                  schema_name table_name unique_col_names))"

text \<open>One pass of the loop over the statements (source lines 71 to 217).\<close>

definition process_statement ::
  "(exp \<Rightarrow> string) \<Rightarrow> string \<Rightarrow> catalog \<Rightarrow> exp \<Rightarrow> error + catalog" where
  "process_statement sql search_path catalog statement =
     (case find_exp Table_cls statement of
        None \<Rightarrow> Inl (AssertionError ''Expected Table expression in CREATE TABLE statement'')
      | Some table_exp \<Rightarrow>
          and_then (get_table_name sql table_exp) (\<lambda>table_name.
          let schema_name = get_schema_name table_exp search_path;
              column_exps = find_all ColumnDef_cls statement;
              pk_exp = find_exp PrimaryKey_cls statement;
              fk_exps = find_all ForeignKey_cls statement;
              unique_exps = find_all UniqueColumnConstraint_cls statement
          in
          and_then (process_foreign_keys sql search_path Map.empty fk_exps) (\<lambda>fks.
          and_then (process_columns sql search_path fks schema_name table_name
                      (catalog, {}, []) column_exps)
            (\<lambda>(catalog1, pk_col_names, unique_col_names).
          and_then (process_primary_key sql pk_exp pk_col_names) (\<lambda>pk_col_names.
          and_then (process_uniques unique_exps unique_col_names) (\<lambda>unique_col_names.
            emit_constraints catalog1 schema_name table_name pk_col_names
              unique_col_names))))))"

fun process_statements ::
  "(exp \<Rightarrow> string) \<Rightarrow> string \<Rightarrow> catalog \<Rightarrow> exp list \<Rightarrow> error + catalog" where
  "process_statements sql search_path catalog [] = Inr catalog"
| "process_statements sql search_path catalog (statement # statements) =
     (case process_statement sql search_path catalog statement of
        Inl e \<Rightarrow> Inl e
      | Inr catalog' \<Rightarrow> process_statements sql search_path catalog' statements)"

text \<open>
  The filter of source line 66. \<^verbatim>\<open>sqlglot.parse\<close> returns a list whose elements are
  statements or \<^verbatim>\<open>None\<close> (an empty statement).
\<close>

fun is_create_table :: "exp option \<Rightarrow> bool" where
  "is_create_table (Some (Create t (Some k) rest)) = (k \<noteq> [] \<and> upper k = ''TABLE'')"
| "is_create_table _ = False"

fun create_tables :: "exp option list \<Rightarrow> exp list" where
  "create_tables [] = []"
| "create_tables (None # stmts) = create_tables stmts"
| "create_tables (Some stmt # stmts) =
     (if is_create_table (Some stmt) then stmt # create_tables stmts else create_tables stmts)"

text \<open>
  \<^verbatim>\<open>build_catalog_from_sql\<close>. The parser (\<^verbatim>\<open>sqlglot.parse\<close>) and the SQL generator behind
  \<^verbatim>\<open>str\<close> are the library's: they are the parameters \<open>parse\<close> and \<open>sql\<close>.
\<close>

definition build_catalog_from_sql ::
  "(string \<Rightarrow> error + exp option list) \<Rightarrow> (exp \<Rightarrow> string) \<Rightarrow> string \<Rightarrow> string
     \<Rightarrow> error + catalog" where
  "build_catalog_from_sql parse sql sql_string search_path =
     (case parse sql_string of
        Inl e \<Rightarrow> Inl e
      | Inr statements \<Rightarrow>
          process_statements sql search_path Catalog (create_tables statements))"

section \<open>Notions used to state the properties\<close>

text \<open>
  The names of the columns that carry an inline \<^verbatim>\<open>PRIMARY KEY\<close> marker, and the names of
  the columns listed in a table-level \<^verbatim>\<open>PRIMARY KEY\<close> node, both read with the builder's own
  functions.
\<close>

definition inline_primary_keys :: "(exp \<Rightarrow> string) \<Rightarrow> exp list \<Rightarrow> string set" where
  "inline_primary_keys sql column_exps =
     set (concat (map (\<lambda>c. case get_column_name sql c of
                            Inr n \<Rightarrow> if any_kind PrimaryKeyColumnConstraint_cls (constraints c) = Inr True
                                     then [n] else []
                          | Inl e \<Rightarrow> [])
                   column_exps))"

definition listed_primary_keys :: "(exp \<Rightarrow> string) \<Rightarrow> exp \<Rightarrow> string set" where
  "listed_primary_keys sql pk_exp =
     set (concat (map (\<lambda>ordered_exp. case primary_key_column sql ordered_exp of
                                      Inr n \<Rightarrow> [n] | Inl e \<Rightarrow> [])
                   (expressions pk_exp)))"


text \<open>The three foreign-key fields of a column.\<close>

definition fk_fields_of :: "column \<Rightarrow> fk_fields" where
  "fk_fields_of c = (fk_schema c, fk_table c, fk_column c)"

section \<open>Example statements\<close>

text \<open>
  The trees of a few statements, as the parser builds them, for the concrete checks
  below. \<open>no_parser\<close> stands for a parser that returns the given statements, and
  \<open>no_sql\<close> for a generator that is never asked.
\<close>

definition no_sql :: "exp \<Rightarrow> string" where
  "no_sql e = []"

definition parsed :: "exp option list \<Rightarrow> string \<Rightarrow> error + exp option list" where
  "parsed statements sql_string = Inr statements"

definition int_type :: "exp option" where
  "int_type = Some (DataType ''INT'' [])"

text \<open>\<^verbatim>\<open>CREATE TABLE t (a INT)\<close>\<close>

definition create_without_pk :: exp where
  "create_without_pk =
     Create (Some (Schema (Some (Table (Some (Identifier ''t'' False)) None))
                     [ColumnDef (Some (Identifier ''a'' False)) int_type []]))
       (Some ''TABLE'') []"

text \<open>\<^verbatim>\<open>CREATE TABLE "MySchema"."Users" ("Id" INT PRIMARY KEY)\<close>\<close>

definition create_quoted :: exp where
  "create_quoted =
     Create (Some (Schema (Some (Table (Some (Identifier ''Users'' True))
                                       (Some (Identifier ''MySchema'' True))))
                     [ColumnDef (Some (Identifier ''Id'' True)) int_type
                        [ColumnConstraint None PrimaryKeyColumnConstraint]]))
       (Some ''TABLE'') []"

text \<open>\<^verbatim>\<open>CREATE TABLE MySchema.Users (Id INT PRIMARY KEY)\<close>\<close>

definition create_unquoted :: exp where
  "create_unquoted =
     Create (Some (Schema (Some (Table (Some (Identifier ''Users'' False))
                                       (Some (Identifier ''MySchema'' False))))
                     [ColumnDef (Some (Identifier ''Id'' False)) int_type
                        [ColumnConstraint None PrimaryKeyColumnConstraint]]))
       (Some ''TABLE'') []"

text \<open>
  \<^verbatim>\<open>CREATE TABLE t (a NUMERIC(10, 2) PRIMARY KEY)\<close>: the parser stores the keyword
  \<^verbatim>\<open>NUMERIC\<close> as the type \<^verbatim>\<open>DECIMAL\<close> and wraps each type argument in a \<^verbatim>\<open>DataTypeParam\<close> node.
\<close>

definition type_param :: "exp \<Rightarrow> exp" where
  "type_param argument = Other ''DataTypeParam'' [argument]"

definition numeric_10_2_column :: exp where
  "numeric_10_2_column =
     ColumnDef (Some (Identifier ''a'' False))
       (Some (DataType ''DECIMAL''
                [type_param (Literal ''10'' False), type_param (Literal ''2'' False)]))
       [ColumnConstraint None PrimaryKeyColumnConstraint]"

definition create_numeric :: exp where
  "create_numeric =
     Create (Some (Schema (Some (Table (Some (Identifier ''t'' False)) None))
                     [numeric_10_2_column]))
       (Some ''TABLE'') []"

text \<open>\<^verbatim>\<open>CREATE TABLE t (a INT PRIMARY KEY, b INT, PRIMARY KEY (a, b))\<close>\<close>

definition create_pk_both :: exp where
  "create_pk_both =
     Create (Some (Schema (Some (Table (Some (Identifier ''t'' False)) None))
                     [ColumnDef (Some (Identifier ''a'' False)) int_type
                        [ColumnConstraint None PrimaryKeyColumnConstraint],
                      ColumnDef (Some (Identifier ''b'' False)) int_type [],
                      PrimaryKey [Other ''Ordered'' [Column (Some (Identifier ''a'' False))],
                                  Other ''Ordered'' [Column (Some (Identifier ''b'' False))]]]))
       (Some ''TABLE'') []"

text \<open>The node of \<^verbatim>\<open>REFERENCES table_name (column_name)\<close>.\<close>

definition references :: "string \<Rightarrow> string \<Rightarrow> exp" where
  "references table_name column_name =
     Reference (Some (Schema (Some (Table (Some (Identifier table_name False)) None))
                        [Identifier column_name False]))"

text \<open>
  \<^verbatim>\<open>CREATE TABLE t (a INT PRIMARY KEY, b INT REFERENCES other (x), c INT, d INT,
  FOREIGN KEY (b) REFERENCES other2 (y), FOREIGN KEY (c) REFERENCES other2 (z))\<close>, and the
  mapping that the pre-scan of its two table-level clauses builds.
\<close>

definition create_fk_precedence :: exp where
  "create_fk_precedence =
     Create (Some (Schema (Some (Table (Some (Identifier ''t'' False)) None))
                     [ColumnDef (Some (Identifier ''a'' False)) int_type
                        [ColumnConstraint None PrimaryKeyColumnConstraint],
                      ColumnDef (Some (Identifier ''b'' False)) int_type
                        [ColumnConstraint None (references ''other'' ''x'')],
                      ColumnDef (Some (Identifier ''c'' False)) int_type [],
                      ColumnDef (Some (Identifier ''d'' False)) int_type [],
                      ForeignKey [Identifier ''b'' False] (Some (references ''other2'' ''y'')),
                      ForeignKey [Identifier ''c'' False] (Some (references ''other2'' ''z''))]))
       (Some ''TABLE'') []"

definition fk_precedence_fks :: "string \<rightharpoonup> reference" where
  "fk_precedence_fks =
     [''b'' \<mapsto> (''public'', ''other2'', ''y''), ''c'' \<mapsto> (''public'', ''other2'', ''z'')]"


text \<open>
  \<^verbatim>\<open>FOREIGN KEY (a) REFERENCES x (id)\<close> and \<^verbatim>\<open>FOREIGN KEY (a) REFERENCES y (id)\<close>; a table
  that lists them in this order; and a table in which the first of them is named, so
  that the parser wraps it in a \<^verbatim>\<open>Constraint\<close> node:
  \<^verbatim>\<open>CREATE TABLE t (a INT PRIMARY KEY, CONSTRAINT fk1 FOREIGN KEY (a) REFERENCES x (id),
  FOREIGN KEY (a) REFERENCES y (id))\<close>.
\<close>

definition fk_a_x :: exp where
  "fk_a_x = ForeignKey [Identifier ''a'' False] (Some (references ''x'' ''id''))"

definition fk_a_y :: exp where
  "fk_a_y = ForeignKey [Identifier ''a'' False] (Some (references ''y'' ''id''))"

definition column_a :: exp where
  "column_a = ColumnDef (Some (Identifier ''a'' False)) int_type
                [ColumnConstraint None PrimaryKeyColumnConstraint]"

definition create_fk_twice :: exp where
  "create_fk_twice =
     Create (Some (Schema (Some (Table (Some (Identifier ''t'' False)) None))
                     [column_a, fk_a_x, fk_a_y]))
       (Some ''TABLE'') []"

definition create_fk_named_first :: exp where
  "create_fk_named_first =
     Create (Some (Schema (Some (Table (Some (Identifier ''t'' False)) None))
                     [column_a, Other ''Constraint'' [Identifier ''fk1'' False, fk_a_x], fk_a_y]))
       (Some ''TABLE'') []"

text \<open>\<^verbatim>\<open>CREATE TABLE t (a INT PRIMARY KEY, b INT UNIQUE)\<close>\<close>

definition create_inline_unique :: exp where
  "create_inline_unique =
     Create (Some (Schema (Some (Table (Some (Identifier ''t'' False)) None))
                     [column_a,
                      ColumnDef (Some (Identifier ''b'' False)) int_type
                        [ColumnConstraint None (UniqueColumnConstraint None)]]))
       (Some ''TABLE'') []"

text \<open>\<^verbatim>\<open>CREATE TABLE t (a INT PRIMARY KEY, b INT, UNIQUE (a, b))\<close>\<close>

definition create_table_unique :: exp where
  "create_table_unique =
     Create (Some (Schema (Some (Table (Some (Identifier ''t'' False)) None))
                     [column_a,
                      ColumnDef (Some (Identifier ''b'' False)) int_type [],
                      UniqueColumnConstraint
                        (Some (Schema None [Identifier ''a'' False, Identifier ''b'' False]))]))
       (Some ''TABLE'') []"

section \<open>The token tree of the SQL tokenizer\<close>

text \<open>
  \<^verbatim>\<open>sqlparse\<close> is an external library. A token is a leaf with a token type and its text, or
  a group (\<^verbatim>\<open>TokenList\<close>) of a class with its child tokens. The token types that the source
  compares with \<^verbatim>\<open>is\<close> are constructors of their own (\<open>DML\<close>, \<open>DDL\<close>, \<open>CTE\<close> and \<open>Order\<close> are
  the sub-types of \<open>Keyword\<close>, \<open>Newline\<close> the sub-type of \<open>Whitespace\<close>). The text of a group is
  the concatenation of the texts of its leaves; a keyword is normalised to upper case; a
  group is never whitespace and has no token type.
\<close>

datatype ttype =
    Keyword | DML | DDL | CTE | Order | Comparison | Whitespace | Newline
  | Punctuation | Name | Wildcard | Number | Other_ttype

datatype token_class =
    Statement_grp | Parenthesis_grp | Identifier_grp | IdentifierList_grp | Where_grp
  | Function_grp | Comparison_grp | Other_grp

datatype token = Token ttype string | TokenList token_class "token list"

fun is_group :: "token \<Rightarrow> bool" where
  "is_group (TokenList c ts) = True"
| "is_group (Token tt v) = False"

fun tokens_of :: "token \<Rightarrow> token list" where
  "tokens_of (TokenList c ts) = ts"
| "tokens_of (Token tt v) = []"

fun token_value :: "token \<Rightarrow> string" where
  "token_value (Token tt v) = v"
| "token_value (TokenList c ts) = concat (map token_value ts)"

fun flatten :: "token \<Rightarrow> token list" where
  "flatten (Token tt v) = [Token tt v]"
| "flatten (TokenList c ts) = concat (map flatten ts)"

definition is_keyword :: "ttype \<Rightarrow> bool" where
  "is_keyword tt = (tt \<in> {Keyword, DML, DDL, CTE, Order})"

fun normalized :: "token \<Rightarrow> string" where
  "normalized (Token tt v) = (if is_keyword tt then upper v else v)"
| "normalized (TokenList c ts) = token_value (TokenList c ts)"

fun is_whitespace :: "token \<Rightarrow> bool" where
  "is_whitespace (Token tt v) = (tt = Whitespace \<or> tt = Newline)"
| "is_whitespace (TokenList c ts) = False"

fun has_ttype :: "token \<Rightarrow> ttype \<Rightarrow> bool" where
  "has_ttype (Token tt v) t = (tt = t)"
| "has_ttype (TokenList c ts) t = False"

fun has_class :: "token \<Rightarrow> token_class \<Rightarrow> bool" where
  "has_class (TokenList c ts) k = (c = k)"
| "has_class (Token tt v) k = False"

text \<open>The local functions \<^verbatim>\<open>_has_select_inside\<close> and \<^verbatim>\<open>_inner_text_once\<close>.\<close>

definition has_select_inside :: "token \<Rightarrow> bool" where
  "has_select_inside grp =
     list_ex (\<lambda>t. has_ttype t DML \<and> normalized t = ''SELECT'') (flatten grp)"

text \<open>
  \<^verbatim>\<open>str.strip\<close>, for a text of code points below 256: the characters for which
  \<^verbatim>\<open>str.isspace\<close> holds are 9 to 13, 28 to 32, 133 and 160.
\<close>

definition is_space :: "char \<Rightarrow> bool" where
  "is_space c = ((of_char c :: nat) \<in> {9, 10, 11, 12, 13, 28, 29, 30, 31, 32, 133, 160})"

definition strip :: "string \<Rightarrow> string" where
  "strip s = rev (dropWhile is_space (rev (dropWhile is_space s)))"

definition startswith :: "string \<Rightarrow> char \<Rightarrow> bool" where
  "startswith s c = (case s of [] \<Rightarrow> False | x # _ \<Rightarrow> x = c)"

definition endswith :: "string \<Rightarrow> char \<Rightarrow> bool" where
  "endswith s c = (s \<noteq> [] \<and> last s = c)"

definition inner_text_once :: "token \<Rightarrow> string" where
  "inner_text_once p =
     (let v = strip (token_value p)
      in if startswith v (CHR ''('') \<and> endswith v (CHR '')'')
         then strip (butlast (tl v)) else v)"

text \<open>
  The clause context after a token that is not whitespace (source lines 99 to 104), and the
  label that is recorded for it, \<^verbatim>\<open>current_clause or 'UNKNOWN'\<close>.
\<close>

definition update_clause :: "token \<Rightarrow> string option \<Rightarrow> string option" where
  "update_clause tok current_clause =
     (let c = (if has_ttype tok Keyword \<or> has_ttype tok DML
               then Some (upper (normalized tok)) else current_clause)
      in if has_class tok Identifier_grp \<and> upper (token_value tok) \<in> {''ALL'', ''ANY''}
         then Some ''ALL/ANY''
         else if has_ttype tok Comparison then Some ''COMPARISON'' else c)"

definition clause_label :: "string option \<Rightarrow> string" where
  "clause_label current_clause =
     (case current_clause of None \<Rightarrow> ''UNKNOWN'' | Some c \<Rightarrow> if c = [] then ''UNKNOWN'' else c)"

text \<open>
  \<^verbatim>\<open>_walk\<close>, with the list \<^verbatim>\<open>results\<close> returned in the order in which the tuples are appended.
  The tokenizer \<^verbatim>\<open>sqlparse.parse\<close> is the parameter \<open>parse\<close>; it returns the statements of a
  text. The walk re-enters the tokenizer on the inner text of every subquery, so that for
  an arbitrary \<open>parse\<close> it need not end: each re-entry uses up one unit of \<open>fuel\<close>, and
  \<open>None\<close> is the walk that has not ended when the fuel is spent. \<open>walk_statements\<close> is the
  loop that walks every statement of a parse result with the clause context reset.
\<close>

type_synonym subquery = "string \<times> string \<times> nat"

function (sequential) walk :: "(string \<Rightarrow> token list) \<Rightarrow> nat \<Rightarrow> token list \<Rightarrow> string option \<Rightarrow> nat
               \<Rightarrow> subquery list option"
  and walk_statements :: "(string \<Rightarrow> token list) \<Rightarrow> nat \<Rightarrow> token list \<Rightarrow> nat
               \<Rightarrow> subquery list option" where
  "walk parse fuel [] current_clause depth = Some []"
| "walk parse fuel (tok # rest) current_clause depth =
     (if is_whitespace tok then walk parse fuel rest current_clause depth
      else
        let clause = update_clause tok current_clause in
        if is_group tok then
          if has_class tok Parenthesis_grp \<and> has_select_inside tok then
            (case fuel of
               0 \<Rightarrow> None
             | Suc fuel' \<Rightarrow>
                 (case walk_statements parse fuel' (parse (inner_text_once tok)) (depth + 1) of
                    None \<Rightarrow> None
                  | Some nested \<Rightarrow>
                      (case walk parse fuel rest clause depth of
                         None \<Rightarrow> None
                       | Some after \<Rightarrow>
                           Some ((inner_text_once tok, clause_label clause, depth + 1)
                                 # nested @ after))))
          else
            (case walk parse fuel (tokens_of tok) clause depth of
               None \<Rightarrow> None
             | Some inside \<Rightarrow>
                 (case walk parse fuel rest clause depth of
                    None \<Rightarrow> None
                  | Some after \<Rightarrow> Some (inside @ after)))
        else walk parse fuel rest clause depth)"
| "walk_statements parse fuel [] depth = Some []"
| "walk_statements parse fuel (stmt # stmts) depth =
     (case walk parse fuel (tokens_of stmt) None depth of
        None \<Rightarrow> None
      | Some found \<Rightarrow>
          (case walk_statements parse fuel stmts depth of
             None \<Rightarrow> None
           | Some others \<Rightarrow> Some (found @ others)))"
  by pat_completeness auto
termination
  apply (relation "inv_image (less_than <*lex*> less_than)
    (\<lambda>x. case x of
           Inl (parse, fuel, tokens, current_clause, depth) \<Rightarrow> (fuel, size_list size tokens)
         | Inr (parse, fuel, stmts, depth) \<Rightarrow> (fuel, size_list size stmts))")
  apply simp_all
  subgoal by (simp add: wf_lex_prod)
  subgoal for tok by (cases tok) simp_all
  subgoal for stmt by (cases stmt) simp_all
  done

text \<open>
  \<^verbatim>\<open>extract_subqueries_tokens\<close>. Every re-entry of the tokenizer is on a text that is at
  least two characters shorter, so that the length of the text is enough fuel (lemma
  \<open>extract_subqueries_tokens_returns\<close> below).
\<close>

definition extract_subqueries_tokens :: "(string \<Rightarrow> token list) \<Rightarrow> string \<Rightarrow> subquery list option" where
  "extract_subqueries_tokens parse sql = walk_statements parse (length sql) (parse sql) 0"


text \<open>
  The tokens to which the walk comes, as the claim describes it.
  \<open>visits parse tokens current_clause depth tok clause d\<close> says that the walk that starts on
  \<open>tokens\<close> with the clause context \<open>current_clause\<close> at depth \<open>depth\<close> comes to the token
  \<open>tok\<close>, which is not whitespace, at depth \<open>d\<close>, and that \<open>clause\<close> is the clause context
  after the update of source lines 99 to 104 for \<open>tok\<close>. The walk comes

  \<^item> to every token of the list that is not whitespace, with the context that the tokens
    before it have left (whitespace leaves it as it is);

  \<^item> to what a walk of the children of a group comes to, with the context and at the
    depth of the group, when the group is no subquery, that is, no parenthesis group with
    a \<^verbatim>\<open>SELECT\<close> token of type DML among its leaves;

  \<^item> to what a walk of a statement of the re-parsed inner text of a subquery comes to,
    which starts without context and one level deeper.

  \<open>visited_subqueries\<close> is the set of the tuples of the subqueries among these tokens.
\<close>

inductive visits :: "(string \<Rightarrow> token list) \<Rightarrow> token list \<Rightarrow> string option \<Rightarrow> nat
    \<Rightarrow> token \<Rightarrow> string option \<Rightarrow> nat \<Rightarrow> bool"
  for parse :: "string \<Rightarrow> token list" where
  here: "\<not> is_whitespace tok \<Longrightarrow>
     visits parse (tok # rest) current_clause depth tok (update_clause tok current_clause) depth"
| after_whitespace: "is_whitespace tok \<Longrightarrow> visits parse rest current_clause depth x c d \<Longrightarrow>
     visits parse (tok # rest) current_clause depth x c d"
| after_token: "\<not> is_whitespace tok \<Longrightarrow>
     visits parse rest (update_clause tok current_clause) depth x c d \<Longrightarrow>
     visits parse (tok # rest) current_clause depth x c d"
| in_group: "is_group tok \<Longrightarrow> \<not> (has_class tok Parenthesis_grp \<and> has_select_inside tok) \<Longrightarrow>
     visits parse (tokens_of tok) (update_clause tok current_clause) depth x c d \<Longrightarrow>
     visits parse (tok # rest) current_clause depth x c d"
| in_subquery: "has_class tok Parenthesis_grp \<Longrightarrow> has_select_inside tok \<Longrightarrow>
     stmt \<in> set (parse (inner_text_once tok)) \<Longrightarrow>
     visits parse (tokens_of stmt) None (depth + 1) x c d \<Longrightarrow>
     visits parse (tok # rest) current_clause depth x c d"

definition visited_subqueries :: "(string \<Rightarrow> token list) \<Rightarrow> token list \<Rightarrow> string option \<Rightarrow> nat
    \<Rightarrow> subquery set" where
  "visited_subqueries parse tokens current_clause depth =
     {x. \<exists>p c d. visits parse tokens current_clause depth p c d
           \<and> has_class p Parenthesis_grp \<and> has_select_inside p
           \<and> x = (inner_text_once p, clause_label c, d + 1)}"


text \<open>
  What the walk relies on in the tokenizer: the text of a parenthesis group starts with
  \<^verbatim>\<open>(\<close> and ends with \<^verbatim>\<open>)\<close>, and the statements of a text hold no more characters than the
  text.
\<close>

fun paren_ok :: "token \<Rightarrow> bool" where
  "paren_ok (Token tt v) = True"
| "paren_ok (TokenList c ts) =
     ((c = Parenthesis_grp \<longrightarrow>
         startswith (concat (map token_value ts)) (CHR ''('')
         \<and> endswith (concat (map token_value ts)) (CHR '')'')
         \<and> 2 \<le> length (concat (map token_value ts)))
      \<and> list_all paren_ok ts)"

definition parser_ok :: "(string \<Rightarrow> token list) \<Rightarrow> bool" where
  "parser_ok parse =
     (\<forall>s. length (concat (map token_value (parse s))) \<le> length s
          \<and> list_all paren_ok (parse s))"

section \<open>Example token trees\<close>

text \<open>
  The token trees of \<^verbatim>\<open>SELECT * FROM t WHERE id IN (SELECT id FROM u WHERE x IN (SELECT y
  FROM v))\<close> and of its two subqueries, and a tokenizer that knows these three texts and
  returns any other text as one token.
\<close>

definition kw :: "string \<Rightarrow> token" where
  "kw s = Token Keyword s"

definition ws :: token where
  "ws = Token Whitespace '' ''"

definition ident :: "string \<Rightarrow> token" where
  "ident n = TokenList Identifier_grp [Token Name n]"

definition paren :: "token list \<Rightarrow> token" where
  "paren ts = TokenList Parenthesis_grp ([Token Punctuation ''(''] @ ts @ [Token Punctuation '')''])"

definition select_v :: "token list" where
  "select_v = [Token DML ''SELECT'', ws, ident ''y'', ws, kw ''FROM'', ws, ident ''v'']"

definition select_u :: "token list" where
  "select_u =
     [Token DML ''SELECT'', ws, ident ''id'', ws, kw ''FROM'', ws, ident ''u'', ws,
      TokenList Where_grp [kw ''WHERE'', ws, ident ''x'', ws, kw ''IN'', ws, paren select_v]]"

definition select_t :: "token list" where
  "select_t =
     [Token DML ''SELECT'', ws, Token Wildcard ''*'', ws, kw ''FROM'', ws, ident ''t'', ws,
      TokenList Where_grp [kw ''WHERE'', ws, ident ''id'', ws, kw ''IN'', ws, paren select_u]]"

definition example_parse :: "string \<Rightarrow> token list" where
  "example_parse s =
     (if s = ''SELECT * FROM t WHERE id IN (SELECT id FROM u WHERE x IN (SELECT y FROM v))''
      then [TokenList Statement_grp select_t]
      else if s = ''SELECT id FROM u WHERE x IN (SELECT y FROM v)''
      then [TokenList Statement_grp select_u]
      else if s = ''SELECT y FROM v''
      then [TokenList Statement_grp select_v]
      else [TokenList Statement_grp [Token Other_ttype s]])"


section \<open>Syntax trees as objects in a store\<close>

text \<open>
  \<^verbatim>\<open>remove_ctes\<close> copies a tree and changes the copy, so that the nodes are objects with an
  identity here: a store is a list of objects, the address of an object is its position,
  and a new object is allocated at the end. An object has its class and its arguments
  (\<^verbatim>\<open>Expression.args\<close>), each of which is a child node, a list of child nodes, or a value
  that is no node; a child is given by its address. \<open>tree\<close> is the tree that is read off
  the store from an address on: what \<^verbatim>\<open>sql()\<close> renders.
\<close>

datatype 'a arg = Child 'a | Children "'a list" | Atom string

datatype tree = Tree string "(string \<times> tree arg) list"

datatype object = Object string "(string \<times> nat arg) list"

type_synonym heap = "object list"

text \<open>
  Reading the tree at an address. A store may hold a cycle, on which the reading would not
  end: \<open>fuel\<close> bounds the depth, and \<open>None\<close> is a tree that is deeper (or an address outside
  the store).
\<close>

fun read_list :: "(nat \<Rightarrow> tree option) \<Rightarrow> nat list \<Rightarrow> tree list option" where
  "read_list f [] = Some []"
| "read_list f (a # as) =
     (case f a of
        None \<Rightarrow> None
      | Some t \<Rightarrow> (case read_list f as of None \<Rightarrow> None | Some ts \<Rightarrow> Some (t # ts)))"

fun read_arg :: "(nat \<Rightarrow> tree option) \<Rightarrow> nat arg \<Rightarrow> tree arg option" where
  "read_arg f (Child a) = map_option Child (f a)"
| "read_arg f (Children as) = map_option Children (read_list f as)"
| "read_arg f (Atom s) = Some (Atom s)"

fun read_args :: "(nat \<Rightarrow> tree option) \<Rightarrow> (string \<times> nat arg) list
                    \<Rightarrow> (string \<times> tree arg) list option" where
  "read_args f [] = Some []"
| "read_args f ((k, v) # rest) =
     (case read_arg f v of
        None \<Rightarrow> None
      | Some t \<Rightarrow> (case read_args f rest of None \<Rightarrow> None | Some ts \<Rightarrow> Some ((k, t) # ts)))"

fun read_tree :: "nat \<Rightarrow> heap \<Rightarrow> nat \<Rightarrow> tree option" where
  "read_tree 0 h a = None"
| "read_tree (Suc n) h a =
     (if a < length h
      then (case h ! a of Object c as \<Rightarrow> map_option (Tree c) (read_args (read_tree n h) as))
      else None)"

text \<open>
  \<^verbatim>\<open>copy.deepcopy\<close> on a node: a new object for the node and for each of its descendants,
  with the values that are no nodes taken over. The children are copied before the object
  of the node is allocated.
\<close>

fun copy_list :: "(heap \<Rightarrow> nat \<Rightarrow> (heap \<times> nat) option) \<Rightarrow> heap \<Rightarrow> nat list
                    \<Rightarrow> (heap \<times> nat list) option" where
  "copy_list f h [] = Some (h, [])"
| "copy_list f h (a # as) =
     (case f h a of
        None \<Rightarrow> None
      | Some (h1, a') \<Rightarrow>
          (case copy_list f h1 as of None \<Rightarrow> None | Some (h2, as') \<Rightarrow> Some (h2, a' # as')))"

fun copy_arg :: "(heap \<Rightarrow> nat \<Rightarrow> (heap \<times> nat) option) \<Rightarrow> heap \<Rightarrow> nat arg
                   \<Rightarrow> (heap \<times> nat arg) option" where
  "copy_arg f h (Child a) = map_option (\<lambda>(h1, a'). (h1, Child a')) (f h a)"
| "copy_arg f h (Children as) = map_option (\<lambda>(h1, as'). (h1, Children as')) (copy_list f h as)"
| "copy_arg f h (Atom s) = Some (h, Atom s)"

fun copy_args :: "(heap \<Rightarrow> nat \<Rightarrow> (heap \<times> nat) option) \<Rightarrow> heap \<Rightarrow> (string \<times> nat arg) list
                    \<Rightarrow> (heap \<times> (string \<times> nat arg) list) option" where
  "copy_args f h [] = Some (h, [])"
| "copy_args f h ((k, v) # rest) =
     (case copy_arg f h v of
        None \<Rightarrow> None
      | Some (h1, v') \<Rightarrow>
          (case copy_args f h1 rest of
             None \<Rightarrow> None
           | Some (h2, rest') \<Rightarrow> Some (h2, (k, v') # rest')))"

fun deepcopy :: "nat \<Rightarrow> heap \<Rightarrow> nat \<Rightarrow> (heap \<times> nat) option" where
  "deepcopy 0 h a = None"
| "deepcopy (Suc n) h a =
     (if a < length h
      then (case h ! a of
              Object c as \<Rightarrow>
                (case copy_args (deepcopy n) h as of
                   None \<Rightarrow> None
                 | Some (h1, as') \<Rightarrow> Some (h1 @ [Object c as'], length h1)))
      else None)"

text \<open>\<^verbatim>\<open>Expression.set(key, None)\<close>: the argument is taken out of the object.\<close>

definition pop_arg :: "heap \<Rightarrow> nat \<Rightarrow> string \<Rightarrow> heap" where
  "pop_arg h a key =
     (if a < length h
      then h[a := (case h ! a of Object c as \<Rightarrow> Object c (filter (\<lambda>(k, v). k \<noteq> key) as))]
      else h)"

text \<open>
  \<^verbatim>\<open>remove_ctes\<close>. The SQL generator behind \<^verbatim>\<open>sql()\<close> is the parameter \<open>sql\<close>; the result is
  the store after the call and the text that is returned.
\<close>

definition remove_ctes :: "(tree \<Rightarrow> string) \<Rightarrow> nat \<Rightarrow> heap \<Rightarrow> nat option
                             \<Rightarrow> (heap \<times> string) option" where
  "remove_ctes sql fuel h ast =
     (case ast of
        None \<Rightarrow> Some (h, [])
      | Some a \<Rightarrow>
          (case deepcopy fuel h a of
             None \<Rightarrow> None
           | Some (h1, ast_copy) \<Rightarrow>
               (let h2 = pop_arg h1 ast_copy ''with''
                in case read_tree fuel h2 ast_copy of
                     None \<Rightarrow> None
                   | Some t \<Rightarrow> Some (h2, sql t))))"


text \<open>
  Two notions for the proofs: a copying function is right for a reading function when it
  returns, for every tree that can be read, an extension of the store and an address at
  which the same tree is read; a reading function is stable when it reads the same tree
  in every extension of the store.
\<close>

definition copies :: "(heap \<Rightarrow> nat \<Rightarrow> (heap \<times> nat) option) \<Rightarrow> (heap \<Rightarrow> nat \<Rightarrow> tree option) \<Rightarrow> bool" where
  "copies f r \<longleftrightarrow>
     (\<forall>h a t. r h a = Some t \<longrightarrow>
        (\<exists>e a'. f h a = Some (h @ e, a') \<and> r (h @ e) a' = Some t))"

definition extends :: "(heap \<Rightarrow> nat \<Rightarrow> tree option) \<Rightarrow> bool" where
  "extends r \<longleftrightarrow> (\<forall>h e a t. r h a = Some t \<longrightarrow> r (h @ e) a = Some t)"


section \<open>Example store\<close>

text \<open>
  The tree of \<^verbatim>\<open>WITH x AS (SELECT 1) SELECT * FROM x\<close> in a store, its root at address 6, and
  a generator that prints the class of the root and the names of its arguments.
\<close>

definition example_heap :: heap where
  "example_heap =
     [Object ''Literal'' [(''this'', Atom ''1'')],
      Object ''Select'' [(''expressions'', Children [0])],
      Object ''CTE'' [(''this'', Child 1), (''alias'', Atom ''x'')],
      Object ''With'' [(''expressions'', Children [2])],
      Object ''Star'' [],
      Object ''Table'' [(''this'', Atom ''x'')],
      Object ''Select'' [(''with'', Child 3), (''expressions'', Children [4]), (''from'', Child 5)]]"

fun arg_names :: "tree \<Rightarrow> string" where
  "arg_names (Tree c as) = c @ concat (map (\<lambda>(k, v). '' '' @ k) as)"


section \<open>Auxiliary facts\<close>

subsection \<open>Errors and the catalog\<close>

lemma and_then_Inr: "and_then m f = Inr y \<longleftrightarrow> (\<exists>x. m = Inr x \<and> f x = Inr y)"
  by (cases m) (simp_all add: and_then_def)

lemma and_then_simps [simp]: "and_then (Inl e) f = Inl e" "and_then (Inr x) f = f x"
  by (simp_all add: and_then_def)

lemma get_schema_set_table:
  "get_schema (set_table catalog s t tb) s' =
     (if s' = s then AList.update t tb (get_schema catalog s) else get_schema catalog s')"
  by (simp add: get_schema_def set_table_def update_conv')

lemma get_table_set_table:
  "get_table (set_table catalog s t tb) s' t' =
     (if s' = s \<and> t' = t then tb else get_table catalog s' t')"
  by (simp add: get_table_def get_schema_set_table update_conv')

lemma get_table_add_column:
  "get_table (add_column catalog s t c) s' t' =
     (if s' = s \<and> t' = t
      then (get_table catalog s t)\<lparr>table_columns := table_columns (get_table catalog s t) @ [c]\<rparr>
      else get_table catalog s' t')"
  by (simp add: add_column_def Let_def get_table_set_table)

lemma get_table_add_unique_constraint:
  "get_table (add_unique_constraint catalog s t cols ct) s' t' =
     (if s' = s \<and> t' = t
      then (get_table catalog s t)\<lparr>unique_constraints :=
              unique_constraints (get_table catalog s t)
                @ [\<lparr>columns = cols, constraint_type = ct\<rparr>]\<rparr>
      else get_table catalog s' t')"
  by (simp add: add_unique_constraint_def Let_def get_table_set_table)

lemma get_table_add_unique_constraints:
  "get_table (add_unique_constraints catalog s t sets) s t =
     (get_table catalog s t)\<lparr>unique_constraints :=
        unique_constraints (get_table catalog s t)
          @ map (\<lambda>cs. \<lparr>columns = cs, constraint_type = UNIQUE\<rparr>) sets\<rparr>"
  unfolding add_unique_constraints_def
  by (induction sets arbitrary: catalog) (simp_all add: get_table_add_unique_constraint)

text \<open>
  The loop over the columns, when it ends normally: the columns it has emitted, in order,
  and the two accumulators.
\<close>

lemma process_columns_result:
  assumes "process_columns sql sp fks s t (cat, pk, uq) cols = Inr (cat', pk', uq')"
  shows "\<exists>infos. map_result (column_info sql sp fks) cols = Inr infos
           \<and> cat' = foldl (\<lambda>c i. add_column c s t (fst i)) cat infos
           \<and> pk' = pk \<union> {name c | c u. (c, True, u) \<in> set infos}
           \<and> uq' = uq @ map (\<lambda>i. {name (fst i)}) (filter (\<lambda>i. snd (snd i)) infos)"
  using assms
proof (induction cols arbitrary: cat pk uq)
  case Nil
  then show ?case by simp
next
  case (Cons c cols)
  from Cons.prems obtain col is_pk is_unique where
    ci: "column_info sql sp fks c = Inr (col, is_pk, is_unique)"
    and rest: "process_columns sql sp fks s t
        (add_column cat s t col, (if is_pk then insert (name col) pk else pk),
         (if is_unique then uq @ [{name col}] else uq)) cols = Inr (cat', pk', uq')"
    by (auto split: sum.splits prod.splits)
  from Cons.IH [OF rest] obtain infos where
    infos: "map_result (column_info sql sp fks) cols = Inr infos"
    and cat': "cat' = foldl (\<lambda>c i. add_column c s t (fst i)) (add_column cat s t col) infos"
    and pk': "pk' = (if is_pk then insert (name col) pk else pk)
                \<union> {name c | c u. (c, True, u) \<in> set infos}"
    and uq': "uq' = (if is_unique then uq @ [{name col}] else uq)
                @ map (\<lambda>i. {name (fst i)}) (filter (\<lambda>i. snd (snd i)) infos)"
    by blast
  show ?case
  proof (intro exI conjI)
    show "map_result (column_info sql sp fks) (c # cols) = Inr ((col, is_pk, is_unique) # infos)"
      using ci infos by simp
    show "cat' = foldl (\<lambda>c i. add_column c s t (fst i)) cat ((col, is_pk, is_unique) # infos)"
      using cat' by simp
    show "pk' = pk \<union> {name c | c u. (c, True, u) \<in> set ((col, is_pk, is_unique) # infos)}"
      using pk' by auto
    show "uq' = uq @ map (\<lambda>i. {name (fst i)})
                  (filter (\<lambda>i. snd (snd i)) ((col, is_pk, is_unique) # infos))"
      using uq' by simp
  qed
qed

lemma get_table_foldl_add_column:
  "get_table (foldl (\<lambda>c i. add_column c s t (fst i)) cat infos) s t =
     (get_table cat s t)\<lparr>table_columns := table_columns (get_table cat s t) @ map fst infos\<rparr>"
  by (induction infos arbitrary: cat) (simp_all add: get_table_add_column)

lemma create_tables_append: "create_tables (xs @ ys) = create_tables xs @ create_tables ys"
  by (induction xs rule: create_tables.induct) simp_all

lemma create_tables_skip: "\<not> is_create_table s \<Longrightarrow> create_tables (s # ys) = create_tables ys"
  by (cases s) simp_all

lemma create_tables_none: "\<forall>s \<in> set stmts. \<not> is_create_table s \<Longrightarrow> create_tables stmts = []"
  by (induction stmts rule: create_tables.induct) simp_all

lemma create_tables_member:
  "Some stmt \<in> set stmts \<Longrightarrow> is_create_table (Some stmt) \<Longrightarrow> stmt \<in> set (create_tables stmts)"
  by (induction stmts rule: create_tables.induct) auto

lemma process_columns_no_pk:
  assumes "process_columns sql sp fks s t (cat, pk, uq) cols = Inr (cat', pk', uq')"
    and "\<forall>c \<in> set cols. any_kind PrimaryKeyColumnConstraint_cls (constraints c) \<noteq> Inr True"
  shows "pk' = pk"
  using assms
proof (induction cols arbitrary: cat pk uq)
  case Nil
  then show ?case by simp
next
  case (Cons c cols)
  from Cons.prems(1) obtain col is_pk is_unique where
    ci: "column_info sql sp fks c = Inr (col, is_pk, is_unique)"
    and rest: "process_columns sql sp fks s t
        (add_column cat s t col, (if is_pk then insert (name col) pk else pk),
         (if is_unique then uq @ [{name col}] else uq)) cols = Inr (cat', pk', uq')"
    by (auto split: sum.splits prod.splits)
  from ci have "any_kind PrimaryKeyColumnConstraint_cls (constraints c) = Inr is_pk"
    by (auto simp: column_info_def and_then_Inr split: prod.splits)
  with Cons.prems(2) have "\<not> is_pk" by auto
  with Cons.IH [OF rest] Cons.prems(2) show ?case by simp
qed

lemma process_statement_no_pk:
  assumes "find_exp PrimaryKey_cls statement = None"
    and "\<forall>c \<in> set (find_all ColumnDef_cls statement).
           any_kind PrimaryKeyColumnConstraint_cls (constraints c) \<noteq> Inr True"
  shows "\<exists>e. process_statement sql sp cat statement = Inl e"
proof (cases "process_statement sql sp cat statement")
  case (Inl e)
  then show ?thesis by blast
next
  case (Inr cat')
  then obtain fks table_exp table_name cat1 pk uq pk2 uq2 where
    cols: "process_columns sql sp fks (get_schema_name table_exp sp) table_name (cat, {}, [])
             (find_all ColumnDef_cls statement) = Inr (cat1, pk, uq)"
    and pk2: "process_primary_key sql (find_exp PrimaryKey_cls statement) pk = Inr pk2"
    and emit: "emit_constraints cat1 (get_schema_name table_exp sp) table_name pk2 uq2 = Inr cat'"
    by (auto simp: process_statement_def and_then_Inr Let_def split: option.splits prod.splits)
  from process_columns_no_pk [OF cols assms(2)] have "pk = {}" .
  with pk2 assms(1) have "pk2 = {}" by (simp add: process_primary_key_def)
  with emit show ?thesis by (simp add: emit_constraints_def)
qed

lemma process_statements_failure:
  "statement \<in> set statements \<Longrightarrow> (\<forall>cat. \<exists>e. process_statement sql sp cat statement = Inl e)
     \<Longrightarrow> \<exists>e. process_statements sql sp cat statements = Inl e"
proof (induction statements arbitrary: cat)
  case Nil
  then show ?case by simp
next
  case (Cons s statements)
  show ?case
  proof (cases "process_statement sql sp cat s")
    case (Inl e)
    then show ?thesis by simp
  next
    case (Inr cat')
    with Cons.prems(2) have "statement \<noteq> s" by (metis sum.distinct(1))
    with Cons.prems have "statement \<in> set statements" by auto
    from Cons.IH [OF this Cons.prems(2)] Inr show ?thesis by simp
  qed
qed

subsection \<open>The passes of the builder\<close>

lemma map_result_Inr:
  "map_result f xs = Inr ys \<Longrightarrow> length ys = length xs \<and> (\<forall>i < length xs. f (xs ! i) = Inr (ys ! i))"
proof (induction xs arbitrary: ys)
  case Nil
  then show ?case by simp
next
  case (Cons x xs)
  from Cons.prems obtain y ys' where y: "f x = Inr y" and ys': "map_result f xs = Inr ys'"
    and ys: "ys = y # ys'"
    by (auto split: sum.splits)
  from Cons.IH [OF ys'] y ys show ?case
    by (auto simp: nth_Cons split: nat.splits)
qed

lemma process_statement_Inr:
  assumes "process_statement sql sp cat statement = Inr cat'"
  obtains table_exp table_name fks cat1 pk uq pk2 uq2 where
    "find_exp Table_cls statement = Some table_exp"
    "get_table_name sql table_exp = Inr table_name"
    "process_foreign_keys sql sp Map.empty (find_all ForeignKey_cls statement) = Inr fks"
    "process_columns sql sp fks (get_schema_name table_exp sp) table_name (cat, {}, [])
       (find_all ColumnDef_cls statement) = Inr (cat1, pk, uq)"
    "process_primary_key sql (find_exp PrimaryKey_cls statement) pk = Inr pk2"
    "process_uniques (find_all UniqueColumnConstraint_cls statement) uq = Inr uq2"
    "emit_constraints cat1 (get_schema_name table_exp sp) table_name pk2 uq2 = Inr cat'"
  using assms
  by (auto simp: process_statement_def and_then_Inr Let_def split: option.splits prod.splits)

lemma emit_constraints_Inr:
  assumes "emit_constraints cat1 s t pk uq = Inr cat'"
  shows "pk \<noteq> {}"
    and "cat' = add_unique_constraints (add_unique_constraint cat1 s t pk PRIMARY_KEY) s t uq"
    and "get_table cat' s t = (get_table cat1 s t)\<lparr>unique_constraints :=
           unique_constraints (get_table cat1 s t)
             @ \<lparr>columns = pk, constraint_type = PRIMARY_KEY\<rparr>
             # map (\<lambda>cs. \<lparr>columns = cs, constraint_type = UNIQUE\<rparr>) uq\<rparr>"
  using assms
  by (auto simp: emit_constraints_def get_table_add_unique_constraints
      get_table_add_unique_constraint split: if_splits)

lemma column_info_Inr:
  assumes "column_info sql sp fks column_exp = Inr (c, is_pk, is_unique)"
  shows "get_column_name sql column_exp = Inr (name c)"
    and "any_kind PrimaryKeyColumnConstraint_cls (constraints column_exp) = Inr is_pk"
    and "any_kind UniqueColumnConstraint_cls (constraints column_exp) = Inr is_unique"
    and "resolve_foreign_key sql sp fks column_exp (name c) = Inr (fk_schema c, fk_table c, fk_column c)"
    and "extract_datatype column_exp = Inr (column_type c, numeric_precision c, numeric_scale c)"
  using assms
  by (auto simp: column_info_def and_then_Inr split: prod.splits)

lemma map_result_set:
  "map_result f xs = Inr ys \<Longrightarrow>
     set (concat (map (\<lambda>x. case f x of Inr n \<Rightarrow> [n] | Inl e \<Rightarrow> []) xs)) = set ys"
  by (induction xs arbitrary: ys) (auto split: sum.splits)

lemma inline_primary_keys_infos:
  "map_result (column_info sql sp fks) cols = Inr infos \<Longrightarrow>
     {name c | c u. (c, True, u) \<in> set infos} = inline_primary_keys sql cols"
proof (induction cols arbitrary: infos)
  case Nil
  then show ?case by (simp add: inline_primary_keys_def)
next
  case (Cons x cols)
  from Cons.prems obtain c is_pk is_unique infos' where
    x: "column_info sql sp fks x = Inr (c, is_pk, is_unique)"
    and rest: "map_result (column_info sql sp fks) cols = Inr infos'"
    and infos: "infos = (c, is_pk, is_unique) # infos'"
    by (auto split: sum.splits)
  have "inline_primary_keys sql (x # cols)
      = (if is_pk then {name c} else {}) \<union> inline_primary_keys sql cols"
    using column_info_Inr(1,2) [OF x] by (simp add: inline_primary_keys_def)
  moreover have "{name c' | c' u. (c', True, u) \<in> set infos}
      = (if is_pk then {name c} else {}) \<union> {name c' | c' u. (c', True, u) \<in> set infos'}"
    unfolding infos by auto
  ultimately show ?case using Cons.IH [OF rest] by simp
qed


lemma inline_reference_Inr:
  assumes "inline_reference sql sp fk_constraint = Inr (a, b, c)"
  shows "\<exists>t d n q es ref_table.
           kind fk_constraint
             = Inr (Some (Reference (Some (Schema (Some (Table t d)) (Identifier n q # es)))))
         \<and> get_table_name sql (Table t d) = Inr ref_table
         \<and> a = Some (get_schema_name (Table t d) sp)
         \<and> b = Some ref_table
         \<and> c = Some (if q then n else lower n)"
proof -
  from assms obtain fk_this where k: "kind fk_constraint = Inr (Some (Reference fk_this))"
    by (auto simp: inline_reference_def split: sum.splits option.splits exp.splits)
  from assms k obtain st es where s: "fk_this = Some (Schema st es)"
    by (auto simp: inline_reference_def split: option.splits exp.splits)
  from assms k s obtain t d where t: "st = Some (Table t d)"
    by (auto simp: inline_reference_def split: option.splits exp.splits)
  from assms k s t obtain ref_table where n: "get_table_name sql (Table t d) = Inr ref_table"
    by (auto simp: inline_reference_def and_then_Inr)
  from assms k s t n obtain x es' where e: "es = x # es'"
    by (cases es) (auto simp: inline_reference_def)
  from assms k s t n e obtain i q where x: "x = Identifier i q"
    by (cases x) (auto simp: inline_reference_def)
  from assms k s t n e x show ?thesis
    by (auto simp: inline_reference_def)
qed


subsection \<open>The order of the traversal and the foreign-key mapping\<close>

lemma bfs_append: "bfs (xs @ ys) = xs @ bfs (ys @ concat (map children xs))"
  by (induction xs arbitrary: ys) simp_all

lemma bfs_level: "bfs xs = xs @ bfs (concat (map children xs))"
  using bfs_append [of xs "[]"] by simp

lemma find_all_create_table:
  "find_all K (Create (Some (Schema (Some (Table t d)) items)) k []) =
     filter (\<lambda>x. isinstance x K)
       [Create (Some (Schema (Some (Table t d)) items)) k [], Schema (Some (Table t d)) items,
        Table t d]
     @ filter (\<lambda>x. isinstance x K) items
     @ filter (\<lambda>x. isinstance x K) (bfs (children (Table t d) @ concat (map children items)))"
proof -
  have "bfs [Create (Some (Schema (Some (Table t d)) items)) k []] =
      Create (Some (Schema (Some (Table t d)) items)) k [] # Schema (Some (Table t d)) items
        # bfs (Table t d # items)"
    by simp
  also have "bfs (Table t d # items) =
      (Table t d # items) @ bfs (concat (map children (Table t d # items)))"
    by (rule bfs_level)
  finally show ?thesis
    by (simp add: find_all_def)
qed

lemma assign_all_map_add: "assign_all fks kvs = fks ++ map_of (rev kvs)"
proof (induction kvs arbitrary: fks)
  case Nil
  then show ?case by simp
next
  case (Cons kv kvs)
  obtain k v where kv: "kv = (k, v)" by (cases kv)
  have "assign_all fks (kv # kvs) = (fks(k \<mapsto> v)) ++ map_of (rev kvs)"
    unfolding kv assign_all.simps by (rule Cons.IH)
  also have "\<dots> = fks ++ map_of (rev (kv # kvs))"
    unfolding kv by (rule ext) (simp add: map_add_def split: option.splits)
  finally show ?case .
qed

lemma assign_all_append: "assign_all fks (xs @ ys) = assign_all (assign_all fks xs) ys"
  by (induction xs arbitrary: fks) auto

lemma process_foreign_keys_eq:
  "process_foreign_keys sql sp fks0 fk_exps =
     (case map_result (foreign_key_entries sql sp) fk_exps of
        Inl e \<Rightarrow> Inl e
      | Inr ess \<Rightarrow> Inr (assign_all fks0 (concat ess)))"
proof (induction fk_exps arbitrary: fks0)
  case Nil
  then show ?case by simp
next
  case (Cons fk fk_exps)
  show ?case
    by (cases "foreign_key_entries sql sp fk")
      (simp_all add: Cons.IH assign_all_append split: sum.splits)
qed

lemma map_result_append_Inr:
  "map_result f (xs @ x # ys) = Inr zs \<Longrightarrow>
     \<exists>as b bs. zs = as @ b # bs \<and> map_result f xs = Inr as \<and> f x = Inr b
       \<and> map_result f ys = Inr bs"
proof (induction xs arbitrary: zs)
  case Nil
  then show ?case by (auto split: sum.splits)
next
  case (Cons a xs)
  from Cons.prems obtain a' zs' where a: "f a = Inr a'"
    and rest: "map_result f (xs @ x # ys) = Inr zs'" and zs: "zs = a' # zs'"
    by (auto split: sum.splits)
  from Cons.IH [OF rest] obtain as b bs where
    "zs' = as @ b # bs" "map_result f xs = Inr as" "f x = Inr b" "map_result f ys = Inr bs"
    by blast
  with a zs have "zs = (a' # as) @ b # bs \<and> map_result f (a # xs) = Inr (a' # as) \<and> f x = Inr b
       \<and> map_result f ys = Inr bs"
    by simp
  then show ?case by blast
qed

lemma map_result_all_Inr:
  "map_result f xs = Inr ys \<Longrightarrow> y \<in> set ys \<Longrightarrow> \<exists>x \<in> set xs. f x = Inr y"
  by (induction xs arbitrary: ys) (auto split: sum.splits)


subsection \<open>The walk over the tokens\<close>

lemma length_strip: "length (strip s) \<le> length s"
proof -
  have "length (dropWhile is_space (rev (dropWhile is_space s))) \<le> length (rev (dropWhile is_space s))"
    by (rule length_dropWhile_le)
  also have "\<dots> \<le> length s"
    by (simp add: length_dropWhile_le)
  finally show ?thesis by (simp add: strip_def)
qed

lemma strip_no_space:
  assumes "s \<noteq> []" and "\<not> is_space (hd s)" and "\<not> is_space (last s)"
  shows "strip s = s"
proof -
  from assms(1,2) have "dropWhile is_space s = s"
    by (cases s) simp_all
  moreover from assms(1,3) have "dropWhile is_space (rev s) = rev s"
    by (cases "rev s") (simp_all add: last_rev [symmetric] hd_rev)
  ultimately show ?thesis by (simp add: strip_def)
qed

lemma paren_not_space: "\<not> is_space (CHR ''('')" "\<not> is_space (CHR '')'')"
  by (simp_all add: is_space_def)

lemma token_value_tokens_of:
  "is_group tok \<Longrightarrow> concat (map token_value (tokens_of tok)) = token_value tok"
  by (cases tok) simp_all

lemma paren_ok_tokens_of: "paren_ok tok \<Longrightarrow> list_all paren_ok (tokens_of tok)"
  by (cases tok) simp_all

lemma parenthesis_text:
  assumes "paren_ok p" and "has_class p Parenthesis_grp"
  shows "\<exists>body. token_value p = CHR ''('' # body @ '')'' \<and> inner_text_once p = strip body"
proof -
  from assms obtain ts where p: "p = TokenList Parenthesis_grp ts"
    by (cases p) simp_all
  let ?v = "token_value p"
  from assms p have s: "startswith ?v (CHR ''('')" and e: "endswith ?v (CHR '')'')"
    and l: "2 \<le> length ?v"
    by simp_all
  from s obtain w where v: "?v = CHR ''('' # w"
    by (auto simp: startswith_def split: list.splits)
  with l have "w \<noteq> []" by auto
  with e v have "last w = CHR '')''" by (simp add: endswith_def)
  with \<open>w \<noteq> []\<close> obtain body where w: "w = body @ '')''"
    by (metis append_butlast_last_id)
  have "strip ?v = ?v"
    using v w by (intro strip_no_space) (simp_all add: paren_not_space)
  with s e v w have "inner_text_once p = strip body"
    by (simp add: inner_text_once_def Let_def)
  with v w show ?thesis by simp
qed

lemma inner_text_shorter:
  assumes "paren_ok p" and "has_class p Parenthesis_grp"
  shows "length (inner_text_once p) + 2 \<le> length (token_value p)"
proof -
  from parenthesis_text [OF assms] obtain body where
    "token_value p = CHR ''('' # body @ '')''" and "inner_text_once p = strip body"
    by blast
  with length_strip [of body] show ?thesis by simp
qed

lemma update_clause_group:
  "is_group tok \<Longrightarrow> \<not> has_class tok Identifier_grp \<Longrightarrow> update_clause tok c = c"
  by (cases tok) (simp_all add: update_clause_def)

lemma walk_returns:
  "parser_ok parse \<Longrightarrow> list_all paren_ok tokens \<Longrightarrow>
     length (concat (map token_value tokens)) \<le> fuel \<Longrightarrow>
     \<exists>rs. walk parse fuel tokens current_clause depth = Some rs"
  "parser_ok parse \<Longrightarrow> list_all paren_ok stmts \<Longrightarrow>
     length (concat (map token_value stmts)) \<le> fuel \<Longrightarrow>
     \<exists>rs. walk_statements parse fuel stmts depth = Some rs"
proof (induction parse fuel tokens current_clause depth and parse fuel stmts depth
    rule: walk_walk_statements.induct)
  case (1 parse fuel current_clause depth)
  then show ?case by simp
next
  case (2 parse fuel tok rest current_clause depth)
  let ?clause = "update_clause tok current_clause"
  from "2.prems" have ok_rest: "list_all paren_ok rest" and ok_tok: "paren_ok tok"
    and len_rest: "length (concat (map token_value rest)) \<le> fuel"
    and len_tok: "length (token_value tok) \<le> fuel"
    by simp_all
  show ?case
  proof (cases "is_whitespace tok")
    case True
    with "2.IH"(1) [OF True "2.prems"(1) ok_rest len_rest] show ?thesis by simp
  next
    case ws: False
    show ?thesis
    proof (cases "is_group tok")
      case False
      with ws "2.IH"(6) [OF ws refl False "2.prems"(1) ok_rest len_rest] show ?thesis
        by simp
    next
      case grp: True
      show ?thesis
      proof (cases "has_class tok Parenthesis_grp \<and> has_select_inside tok")
        case sub: True
        from inner_text_shorter [of tok] ok_tok sub len_tok
        have "length (inner_text_once tok) + 2 \<le> fuel" by simp
        then obtain fuel' where fuel: "fuel = Suc fuel'"
          and inner: "length (inner_text_once tok) \<le> fuel'"
          by (cases fuel) simp_all
        from "2.prems"(1)
        have "length (concat (map token_value (parse (inner_text_once tok))))
                \<le> length (inner_text_once tok)"
          and okp: "list_all paren_ok (parse (inner_text_once tok))"
          by (simp_all add: parser_ok_def)
        with inner have "length (concat (map token_value (parse (inner_text_once tok)))) \<le> fuel'"
          by simp
        from "2.IH"(2) [OF ws refl grp sub fuel "2.prems"(1) okp this]
        obtain nested where
          nested: "walk_statements parse fuel' (parse (inner_text_once tok)) (depth + 1) = Some nested"
          by blast
        from "2.IH"(3) [OF ws refl grp sub fuel nested "2.prems"(1) ok_rest len_rest]
        obtain after where "walk parse fuel rest ?clause depth = Some after"
          by blast
        with ws grp sub fuel nested show ?thesis
          by (simp add: Let_def)
      next
        case nosub: False
        from grp len_tok have "length (concat (map token_value (tokens_of tok))) \<le> fuel"
          by (simp add: token_value_tokens_of)
        from "2.IH"(4) [OF ws refl grp nosub "2.prems"(1) paren_ok_tokens_of [OF ok_tok] this]
        obtain inside where inside: "walk parse fuel (tokens_of tok) ?clause depth = Some inside"
          by blast
        from "2.IH"(5) [OF ws refl grp nosub inside "2.prems"(1) ok_rest len_rest]
        obtain after where "walk parse fuel rest ?clause depth = Some after"
          by blast
        with ws grp nosub inside show ?thesis
          by (cases "has_class tok Parenthesis_grp") (simp_all add: Let_def)
      qed
    qed
  qed
next
  case (3 parse fuel depth)
  then show ?case by simp
next
  case (4 parse fuel stmt stmts depth)
  from "4.prems" have ok_rest: "list_all paren_ok stmts" and ok_stmt: "paren_ok stmt"
    and len_rest: "length (concat (map token_value stmts)) \<le> fuel"
    and len_stmt: "length (token_value stmt) \<le> fuel"
    by simp_all
  have "length (concat (map token_value (tokens_of stmt))) \<le> fuel"
    using len_stmt by (cases stmt) simp_all
  from "4.IH"(1) [OF "4.prems"(1) paren_ok_tokens_of [OF ok_stmt] this]
  obtain found where found: "walk parse fuel (tokens_of stmt) None depth = Some found"
    by blast
  from "4.IH"(2) [OF found "4.prems"(1) ok_rest len_rest]
  obtain others where "walk_statements parse fuel stmts depth = Some others"
    by blast
  with found show ?case by simp
qed

lemma walk_depth:
  "walk parse fuel tokens current_clause depth = Some rs \<Longrightarrow>
     \<forall>(text, label, d) \<in> set rs. depth + 1 \<le> d"
  "walk_statements parse fuel stmts depth = Some rs \<Longrightarrow>
     \<forall>(text, label, d) \<in> set rs. depth + 1 \<le> d"
proof (induction parse fuel tokens current_clause depth and parse fuel stmts depth
    arbitrary: rs and rs rule: walk_walk_statements.induct)
  case (1 parse fuel current_clause depth)
  then show ?case by simp
next
  case (2 parse fuel tok rest current_clause depth)
  let ?clause = "update_clause tok current_clause"
  show ?case
  proof (cases "is_whitespace tok")
    case True
    with "2.IH"(1) "2.prems" show ?thesis by simp
  next
    case ws: False
    show ?thesis
    proof (cases "is_group tok")
      case False
      with ws "2.IH"(6) [OF ws refl False] "2.prems" show ?thesis
        by (simp add: Let_def)
    next
      case grp: True
      show ?thesis
      proof (cases "has_class tok Parenthesis_grp \<and> has_select_inside tok")
        case sub: True
        from "2.prems" ws grp sub obtain fuel' nested after where fuel: "fuel = Suc fuel'"
          and nested: "walk_statements parse fuel' (parse (inner_text_once tok)) (depth + 1) = Some nested"
          and after: "walk parse fuel rest ?clause depth = Some after"
          and rs: "rs = (inner_text_once tok, clause_label ?clause, depth + 1) # nested @ after"
          by (auto simp: Let_def split: nat.splits option.splits)
        from "2.IH"(2) [OF ws refl grp sub fuel nested]
        have "\<forall>(text, label, d) \<in> set nested. depth + 1 \<le> d"
          by auto
        moreover from "2.IH"(3) [OF ws refl grp sub fuel nested after]
        have "\<forall>(text, label, d) \<in> set after. depth + 1 \<le> d" .
        ultimately show ?thesis unfolding rs by auto
      next
        case nosub: False
        from "2.prems" ws grp nosub obtain inside after where
          inside: "walk parse fuel (tokens_of tok) ?clause depth = Some inside"
          and after: "walk parse fuel rest ?clause depth = Some after"
          and rs: "rs = inside @ after"
          by (cases "has_class tok Parenthesis_grp") (auto simp: Let_def split: option.splits)
        from "2.IH"(4) [OF ws refl grp nosub inside]
          "2.IH"(5) [OF ws refl grp nosub inside after]
        show ?thesis unfolding rs by auto
      qed
    qed
  qed
next
  case (3 parse fuel depth)
  then show ?case by simp
next
  case (4 parse fuel stmt stmts depth)
  from "4.prems" obtain found others where
    found: "walk parse fuel (tokens_of stmt) None depth = Some found"
    and others: "walk_statements parse fuel stmts depth = Some others"
    and rs: "rs = found @ others"
    by (auto split: option.splits)
  from "4.IH"(1) [OF found] "4.IH"(2) [OF found others] show ?case
    unfolding rs by auto
qed

lemma walk_statements_deeper:
  "walk_statements parse fuel stmts (depth + 1) = Some rs \<Longrightarrow>
     \<forall>(text, label, d) \<in> set rs. depth + 2 \<le> d"
  using walk_depth(2) [of parse fuel stmts "depth + 1" rs] by auto

text \<open>The tuples of the walk are those of the subqueries that it visits.\<close>

inductive_simps visits_Nil: "visits parse [] current_clause depth x c d"
inductive_simps visits_Cons: "visits parse (tok # rest) current_clause depth x c d"

lemma group_not_whitespace: "is_group tok \<Longrightarrow> \<not> is_whitespace tok"
  by (cases tok) simp_all

lemma has_class_group: "has_class tok k \<Longrightarrow> is_group tok"
  by (cases tok) simp_all

lemma visited_subqueries_Nil: "visited_subqueries parse [] c d = {}"
  by (simp add: visited_subqueries_def visits_Nil)

lemma visited_subqueries_iff:
  "x \<in> visited_subqueries parse tokens current_clause depth \<longleftrightarrow>
     (\<exists>p c d. visits parse tokens current_clause depth p c d
           \<and> has_class p Parenthesis_grp \<and> has_select_inside p
           \<and> x = (inner_text_once p, clause_label c, d + 1))"
  by (simp add: visited_subqueries_def)

lemma visited_subqueries_whitespace:
  assumes "is_whitespace tok"
  shows "visited_subqueries parse (tok # rest) c d = visited_subqueries parse rest c d"
proof -
  from assms have "\<not> is_group tok" "\<not> has_class tok Parenthesis_grp"
    using group_not_whitespace [of tok] has_class_group [of tok Parenthesis_grp] by blast+
  with assms have "visits parse (tok # rest) c d p c' d' \<longleftrightarrow> visits parse rest c d p c' d'"
    for p c' d'
    by (simp add: visits_Cons)
  then show ?thesis by (simp add: visited_subqueries_def)
qed

lemma visited_subqueries_leaf:
  assumes "\<not> is_whitespace tok" and "\<not> is_group tok"
  shows "visited_subqueries parse (tok # rest) c d = visited_subqueries parse rest (update_clause tok c) d"
proof -
  from assms have np: "\<not> has_class tok Parenthesis_grp"
    using has_class_group [of tok Parenthesis_grp] by blast
  with assms have "visits parse (tok # rest) c d p c' d' \<longleftrightarrow>
      (p = tok \<and> c' = update_clause tok c \<and> d' = d) \<or> visits parse rest (update_clause tok c) d p c' d'"
    for p c' d'
    by (auto simp: visits_Cons)
  with np show ?thesis by (auto simp: visited_subqueries_def)
qed

lemma visited_subqueries_group:
  assumes "is_group tok" and "\<not> (has_class tok Parenthesis_grp \<and> has_select_inside tok)"
  shows "visited_subqueries parse (tok # rest) c d
       = visited_subqueries parse (tokens_of tok) (update_clause tok c) d
         \<union> visited_subqueries parse rest (update_clause tok c) d"
proof -
  from assms have nw: "\<not> is_whitespace tok"
    using group_not_whitespace by blast
  have v: "visits parse (tok # rest) c d p c' d' \<longleftrightarrow>
      (p = tok \<and> c' = update_clause tok c \<and> d' = d)
      \<or> visits parse rest (update_clause tok c) d p c' d'
      \<or> visits parse (tokens_of tok) (update_clause tok c) d p c' d'"
    for p c' d'
    using assms nw by (auto simp: visits_Cons)
  show ?thesis
  proof (intro set_eqI iffI)
    fix x assume "x \<in> visited_subqueries parse (tok # rest) c d"
    then obtain p c' d' where "visits parse (tok # rest) c d p c' d'"
      and p: "has_class p Parenthesis_grp" "has_select_inside p"
        "x = (inner_text_once p, clause_label c', d' + 1)"
      unfolding visited_subqueries_iff by blast
    with v assms(2) have "visits parse rest (update_clause tok c) d p c' d'
      \<or> visits parse (tokens_of tok) (update_clause tok c) d p c' d'"
      by auto
    with p show "x \<in> visited_subqueries parse (tokens_of tok) (update_clause tok c) d
         \<union> visited_subqueries parse rest (update_clause tok c) d"
      unfolding Un_iff visited_subqueries_iff by blast
  next
    fix x assume "x \<in> visited_subqueries parse (tokens_of tok) (update_clause tok c) d
         \<union> visited_subqueries parse rest (update_clause tok c) d"
    then obtain p c' d' where "visits parse rest (update_clause tok c) d p c' d'
      \<or> visits parse (tokens_of tok) (update_clause tok c) d p c' d'"
      and p: "has_class p Parenthesis_grp" "has_select_inside p"
        "x = (inner_text_once p, clause_label c', d' + 1)"
      unfolding Un_iff visited_subqueries_iff by blast
    with v have "visits parse (tok # rest) c d p c' d'" by blast
    with p show "x \<in> visited_subqueries parse (tok # rest) c d"
      unfolding visited_subqueries_iff by blast
  qed
qed

lemma visited_subqueries_subquery:
  assumes "has_class tok Parenthesis_grp" and "has_select_inside tok"
  shows "visited_subqueries parse (tok # rest) c d
       = insert (inner_text_once tok, clause_label (update_clause tok c), d + 1)
           ((\<Union>stmt \<in> set (parse (inner_text_once tok)). visited_subqueries parse (tokens_of stmt) None (d + 1))
            \<union> visited_subqueries parse rest (update_clause tok c) d)"
    (is "?lhs = ?rhs")
proof -
  from assms have nw: "\<not> is_whitespace tok" and grp: "is_group tok"
    using group_not_whitespace has_class_group by blast+
  have v: "visits parse (tok # rest) c d p c' d' \<longleftrightarrow>
      (p = tok \<and> c' = update_clause tok c \<and> d' = d)
      \<or> visits parse rest (update_clause tok c) d p c' d'
      \<or> (\<exists>stmt \<in> set (parse (inner_text_once tok)). visits parse (tokens_of stmt) None (d + 1) p c' d')"
    for p c' d'
    using assms nw grp by (auto simp: visits_Cons)
  show ?thesis
  proof (intro set_eqI iffI)
    fix x assume "x \<in> ?lhs"
    then obtain p c' d' where vis: "visits parse (tok # rest) c d p c' d'"
      and p: "has_class p Parenthesis_grp" "has_select_inside p"
        "x = (inner_text_once p, clause_label c', d' + 1)"
      unfolding visited_subqueries_iff by blast
    from vis v consider "p = tok \<and> c' = update_clause tok c \<and> d' = d"
      | "visits parse rest (update_clause tok c) d p c' d'"
      | stmt where "stmt \<in> set (parse (inner_text_once tok))"
          "visits parse (tokens_of stmt) None (d + 1) p c' d'"
      by blast
    then show "x \<in> ?rhs"
    proof cases
      case 1
      with p show ?thesis by simp
    next
      case 2
      with p have "x \<in> visited_subqueries parse rest (update_clause tok c) d"
        unfolding visited_subqueries_iff by blast
      then show ?thesis by simp
    next
      case 3
      with p have "x \<in> visited_subqueries parse (tokens_of stmt) None (d + 1)"
        unfolding visited_subqueries_iff by blast
      with 3(1) show ?thesis by blast
    qed
  next
    fix x assume "x \<in> ?rhs"
    then consider "x = (inner_text_once tok, clause_label (update_clause tok c), d + 1)"
      | "x \<in> visited_subqueries parse rest (update_clause tok c) d"
      | stmt where "stmt \<in> set (parse (inner_text_once tok))"
          "x \<in> visited_subqueries parse (tokens_of stmt) None (d + 1)"
      by blast
    then show "x \<in> ?lhs"
    proof cases
      case 1
      from v have "visits parse (tok # rest) c d tok (update_clause tok c) d" by blast
      with 1 assms show ?thesis unfolding visited_subqueries_iff by blast
    next
      case 2
      then obtain p c' d' where "visits parse rest (update_clause tok c) d p c' d'"
        and p: "has_class p Parenthesis_grp" "has_select_inside p"
          "x = (inner_text_once p, clause_label c', d' + 1)"
        unfolding visited_subqueries_iff by blast
      with v have "visits parse (tok # rest) c d p c' d'" by blast
      with p show ?thesis unfolding visited_subqueries_iff by blast
    next
      case 3
      then obtain p c' d' where "visits parse (tokens_of stmt) None (d + 1) p c' d'"
        and p: "has_class p Parenthesis_grp" "has_select_inside p"
          "x = (inner_text_once p, clause_label c', d' + 1)"
        unfolding visited_subqueries_iff by blast
      with v 3(1) have "visits parse (tok # rest) c d p c' d'" by blast
      with p show ?thesis unfolding visited_subqueries_iff by blast
    qed
  qed
qed

lemma walk_visited_subqueries:
  "walk parse fuel tokens current_clause depth = Some rs \<Longrightarrow>
     set rs = visited_subqueries parse tokens current_clause depth"
  "walk_statements parse fuel stmts depth = Some rs \<Longrightarrow>
     set rs = (\<Union>stmt \<in> set stmts. visited_subqueries parse (tokens_of stmt) None depth)"
proof (induction parse fuel tokens current_clause depth and parse fuel stmts depth
    arbitrary: rs and rs rule: walk_walk_statements.induct)
  case (1 parse fuel current_clause depth)
  then show ?case by (simp add: visited_subqueries_Nil)
next
  case (2 parse fuel tok rest current_clause depth)
  let ?clause = "update_clause tok current_clause"
  show ?case
  proof (cases "is_whitespace tok")
    case True
    with "2.IH"(1) "2.prems" show ?thesis by (simp add: visited_subqueries_whitespace)
  next
    case ws: False
    show ?thesis
    proof (cases "is_group tok")
      case False
      with ws "2.IH"(6) [OF ws refl False] "2.prems" show ?thesis
        by (simp add: Let_def visited_subqueries_leaf)
    next
      case grp: True
      show ?thesis
      proof (cases "has_class tok Parenthesis_grp \<and> has_select_inside tok")
        case sub: True
        from "2.prems" ws grp sub obtain fuel' nested after where fuel: "fuel = Suc fuel'"
          and nested: "walk_statements parse fuel' (parse (inner_text_once tok)) (depth + 1) = Some nested"
          and after: "walk parse fuel rest ?clause depth = Some after"
          and rs: "rs = (inner_text_once tok, clause_label ?clause, depth + 1) # nested @ after"
          by (auto simp: Let_def split: nat.splits option.splits)
        from "2.IH"(2) [OF ws refl grp sub fuel nested]
          "2.IH"(3) [OF ws refl grp sub fuel nested after] sub
        show ?thesis unfolding rs by (simp add: visited_subqueries_subquery)
      next
        case nosub: False
        from "2.prems" ws grp nosub obtain inside after where
          inside: "walk parse fuel (tokens_of tok) ?clause depth = Some inside"
          and after: "walk parse fuel rest ?clause depth = Some after"
          and rs: "rs = inside @ after"
          by (cases "has_class tok Parenthesis_grp") (auto simp: Let_def split: option.splits)
        from "2.IH"(4) [OF ws refl grp nosub inside]
          "2.IH"(5) [OF ws refl grp nosub inside after]
        show ?thesis unfolding rs by (simp add: visited_subqueries_group [OF grp nosub])
      qed
    qed
  qed
next
  case (3 parse fuel depth)
  then show ?case by simp
next
  case (4 parse fuel stmt stmts depth)
  from "4.prems" obtain found others where
    found: "walk parse fuel (tokens_of stmt) None depth = Some found"
    and others: "walk_statements parse fuel stmts depth = Some others"
    and rs: "rs = found @ others"
    by (auto split: option.splits)
  from "4.IH"(1) [OF found] "4.IH"(2) [OF found others] show ?case
    unfolding rs by simp
qed

lemma visits_paren_ok:
  assumes "parser_ok parse"
  shows "visits parse tokens current_clause depth x c d \<Longrightarrow> list_all paren_ok tokens \<Longrightarrow> paren_ok x"
proof (induction rule: visits.induct)
  case (in_group tok current_clause depth x c d rest)
  then show ?case by (simp add: paren_ok_tokens_of)
next
  case (in_subquery tok stmt depth x c d rest current_clause)
  from assms have "list_all paren_ok (parse (inner_text_once tok))"
    by (simp add: parser_ok_def)
  with in_subquery(3) have "paren_ok stmt"
    by (simp add: list_all_iff)
  with in_subquery show ?case by (simp add: paren_ok_tokens_of)
qed simp_all

lemma visits_depth: "visits parse tokens current_clause depth x c d \<Longrightarrow> depth \<le> d"
  by (induction rule: visits.induct) simp_all

lemma visits_into_group:
  assumes "visits parse tokens current_clause depth grp c d"
    and "is_group grp" and "\<not> (has_class grp Parenthesis_grp \<and> has_select_inside grp)"
    and "visits parse (tokens_of grp) c d x c' d'"
  shows "visits parse tokens current_clause depth x c' d'"
  using assms
proof (induction rule: visits.induct)
  case (here tok rest current_clause depth)
  then show ?case by (simp add: visits.in_group)
qed (simp_all add: visits.intros)

lemma visits_into_subquery:
  assumes "visits parse tokens current_clause depth p c d"
    and "has_class p Parenthesis_grp" and "has_select_inside p"
    and "stmt \<in> set (parse (inner_text_once p))"
    and "visits parse (tokens_of stmt) None (d + 1) x c' d'"
  shows "visits parse tokens current_clause depth x c' d'"
  using assms
proof (induction rule: visits.induct)
  case (here tok rest current_clause depth)
  then show ?case by (simp add: visits.in_subquery)
qed (simp_all add: visits.intros)

lemma example_parse_ok: "parser_ok example_parse"
proof -
  have t: "length (concat (map token_value [TokenList Statement_grp select_t]))
      \<le> length ''SELECT * FROM t WHERE id IN (SELECT id FROM u WHERE x IN (SELECT y FROM v))''"
    "list_all paren_ok [TokenList Statement_grp select_t]"
    by code_simp+
  have u: "length (concat (map token_value [TokenList Statement_grp select_u]))
      \<le> length ''SELECT id FROM u WHERE x IN (SELECT y FROM v)''"
    "list_all paren_ok [TokenList Statement_grp select_u]"
    by code_simp+
  have v: "length (concat (map token_value [TokenList Statement_grp select_v]))
      \<le> length ''SELECT y FROM v''"
    "list_all paren_ok [TokenList Statement_grp select_v]"
    by code_simp+
  show ?thesis
    unfolding parser_ok_def example_parse_def using t u v by auto
qed


subsection \<open>Reading and copying in the store\<close>

lemma read_list_mono:
  "(\<And>a t. f a = Some t \<Longrightarrow> g a = Some t) \<Longrightarrow> read_list f as = Some ts \<Longrightarrow> read_list g as = Some ts"
  by (induction as arbitrary: ts) (auto split: option.splits)

lemma read_arg_mono:
  "(\<And>a t. f a = Some t \<Longrightarrow> g a = Some t) \<Longrightarrow> read_arg f v = Some t \<Longrightarrow> read_arg g v = Some t"
proof (cases v)
  case (Children as)
  assume f: "\<And>a t. f a = Some t \<Longrightarrow> g a = Some t" and "read_arg f v = Some t"
  with Children obtain ts where "read_list f as = Some ts" and "t = Children ts"
    by auto
  with read_list_mono [of f g as ts] f Children show ?thesis
    by simp
qed auto

lemma read_args_mono:
  assumes "\<And>a t. f a = Some t \<Longrightarrow> g a = Some t"
  shows "read_args f as = Some ts \<Longrightarrow> read_args g as = Some ts"
proof (induction as arbitrary: ts)
  case Nil
  then show ?case by simp
next
  case (Cons kv as)
  obtain k v where kv: "kv = (k, v)" by (cases kv)
  from Cons.prems kv obtain t ts' where v: "read_arg f v = Some t"
    and rest: "read_args f as = Some ts'" and ts: "ts = (k, t) # ts'"
    by (auto split: option.splits)
  from read_arg_mono [of f g, OF assms v] Cons.IH [OF rest] kv ts show ?case
    by simp
qed

lemma read_tree_extend: "read_tree n h a = Some t \<Longrightarrow> read_tree n (h @ e) a = Some t"
proof (induction n arbitrary: a t)
  case 0
  then show ?case by simp
next
  case (Suc n)
  from Suc.prems have a: "a < length h"
    by (simp split: if_splits)
  obtain c as where obj: "h ! a = Object c as" by (cases "h ! a")
  with Suc.prems a obtain ts where ts: "read_args (read_tree n h) as = Some ts" and t: "t = Tree c ts"
    by auto
  from read_args_mono [of "read_tree n h" "read_tree n (h @ e)", OF Suc.IH ts]
  have "read_args (read_tree n (h @ e)) as = Some ts" .
  with a obj t show ?case by (simp add: nth_append)
qed

lemma read_args_filter:
  "read_args f as = Some ts \<Longrightarrow>
     read_args f (filter (\<lambda>(k, v). k \<noteq> key) as) = Some (filter (\<lambda>(k, v). k \<noteq> key) ts)"
proof (induction as arbitrary: ts)
  case Nil
  then show ?case by simp
next
  case (Cons kv as)
  obtain k v where kv: "kv = (k, v)" by (cases kv)
  from Cons.prems kv obtain t ts' where v: "read_arg f v = Some t"
    and rest: "read_args f as = Some ts'" and ts: "ts = (k, t) # ts'"
    by (auto split: option.splits)
  from Cons.IH [OF rest] v kv ts show ?case by simp
qed

lemma copy_list_correct:
  assumes "copies f r" and "extends r"
  shows "read_list (r h) as = Some ts \<Longrightarrow>
     \<exists>e as'. copy_list f h as = Some (h @ e, as') \<and> read_list (r (h @ e)) as' = Some ts"
proof (induction as arbitrary: h ts)
  case Nil
  then show ?case by simp
next
  case (Cons a as)
  from Cons.prems obtain t ts' where a: "r h a = Some t"
    and rest: "read_list (r h) as = Some ts'" and ts: "ts = t # ts'"
    by (auto split: option.splits)
  from assms(1) a obtain e1 a' where c1: "f h a = Some (h @ e1, a')" and r1: "r (h @ e1) a' = Some t"
    unfolding copies_def by blast
  from assms(2) have ext: "\<And>h e a t. r h a = Some t \<Longrightarrow> r (h @ e) a = Some t"
    unfolding extends_def by blast
  from read_list_mono [of "r h" "r (h @ e1)", OF ext rest]
  have "read_list (r (h @ e1)) as = Some ts'" .
  from Cons.IH [OF this] obtain e2 as' where
    c2: "copy_list f (h @ e1) as = Some ((h @ e1) @ e2, as')"
    and r2: "read_list (r ((h @ e1) @ e2)) as' = Some ts'"
    by blast
  from ext [OF r1, of e2] have "r ((h @ e1) @ e2) a' = Some t" .
  with c1 c2 r2 ts have "copy_list f h (a # as) = Some (h @ (e1 @ e2), a' # as')
      \<and> read_list (r (h @ (e1 @ e2))) (a' # as') = Some ts"
    by simp
  then show ?case by blast
qed

lemma copy_arg_correct:
  assumes "copies f r" and "extends r"
  shows "read_arg (r h) v = Some t \<Longrightarrow>
     \<exists>e v'. copy_arg f h v = Some (h @ e, v') \<and> read_arg (r (h @ e)) v' = Some t"
proof (cases v)
  case (Child a)
  assume "read_arg (r h) v = Some t"
  with Child obtain t' where a: "r h a = Some t'" and t: "t = Child t'"
    by auto
  from assms(1) a obtain e a' where "f h a = Some (h @ e, a')" and "r (h @ e) a' = Some t'"
    unfolding copies_def by blast
  with Child t have "copy_arg f h v = Some (h @ e, Child a') \<and> read_arg (r (h @ e)) (Child a') = Some t"
    by simp
  then show ?thesis by blast
next
  case (Children as)
  assume "read_arg (r h) v = Some t"
  with Children obtain ts where as: "read_list (r h) as = Some ts" and t: "t = Children ts"
    by auto
  from copy_list_correct [OF assms as] obtain e as' where
    "copy_list f h as = Some (h @ e, as')" and "read_list (r (h @ e)) as' = Some ts"
    by blast
  with Children t have "copy_arg f h v = Some (h @ e, Children as')
      \<and> read_arg (r (h @ e)) (Children as') = Some t"
    by simp
  then show ?thesis by blast
next
  case (Atom s)
  assume "read_arg (r h) v = Some t"
  with Atom have "copy_arg f h v = Some (h @ [], Atom s) \<and> read_arg (r (h @ [])) (Atom s) = Some t"
    by simp
  then show ?thesis by blast
qed

lemma copy_args_correct:
  assumes "copies f r" and "extends r"
  shows "read_args (r h) as = Some ts \<Longrightarrow>
     \<exists>e as'. copy_args f h as = Some (h @ e, as') \<and> read_args (r (h @ e)) as' = Some ts"
proof (induction as arbitrary: h ts)
  case Nil
  then show ?case by simp
next
  case (Cons kv as)
  obtain k v where kv: "kv = (k, v)" by (cases kv)
  from Cons.prems kv obtain t ts' where v: "read_arg (r h) v = Some t"
    and rest: "read_args (r h) as = Some ts'" and ts: "ts = (k, t) # ts'"
    by (auto split: option.splits)
  from copy_arg_correct [OF assms v] obtain e1 v' where
    c1: "copy_arg f h v = Some (h @ e1, v')" and r1: "read_arg (r (h @ e1)) v' = Some t"
    by blast
  from assms(2) have ext: "\<And>h e a t. r h a = Some t \<Longrightarrow> r (h @ e) a = Some t"
    unfolding extends_def by blast
  from read_args_mono [of "r h" "r (h @ e1)", OF ext rest]
  have "read_args (r (h @ e1)) as = Some ts'" .
  from Cons.IH [OF this] obtain e2 as' where
    c2: "copy_args f (h @ e1) as = Some ((h @ e1) @ e2, as')"
    and r2: "read_args (r ((h @ e1) @ e2)) as' = Some ts'"
    by blast
  from read_arg_mono [of "r (h @ e1)" "r ((h @ e1) @ e2)", OF ext r1]
  have "read_arg (r ((h @ e1) @ e2)) v' = Some t" .
  with c1 c2 r2 ts kv have "copy_args f h (kv # as) = Some (h @ (e1 @ e2), (k, v') # as')
      \<and> read_args (r (h @ (e1 @ e2))) ((k, v') # as') = Some ts"
    by simp
  then show ?case by blast
qed

lemma extends_read_tree: "extends (read_tree n)"
  unfolding extends_def by (blast intro: read_tree_extend)

lemma deepcopy_step:
  assumes "copies (deepcopy n) (read_tree n)"
    and "read_tree (Suc n) h a = Some (Tree c ts)"
  shows "\<exists>e as'. deepcopy (Suc n) h a = Some ((h @ e) @ [Object c as'], length (h @ e))
           \<and> read_args (read_tree n (h @ e)) as' = Some ts"
proof -
  from assms(2) have a: "a < length h"
    by (simp split: if_splits)
  obtain c' as where obj: "h ! a = Object c' as" by (cases "h ! a")
  with assms(2) a have c: "c' = c" and ts: "read_args (read_tree n h) as = Some ts"
    by auto
  from copy_args_correct [OF assms(1) extends_read_tree ts] obtain e as' where
    "copy_args (deepcopy n) h as = Some (h @ e, as')"
    and "read_args (read_tree n (h @ e)) as' = Some ts"
    by blast
  with a obj c show ?thesis by simp
qed

lemma read_new_object:
  assumes "read_args (read_tree n h) as = Some ts"
  shows "read_tree (Suc n) (h @ [Object c as]) (length h) = Some (Tree c ts)"
proof -
  from read_args_mono [of "read_tree n h" "read_tree n (h @ [Object c as])", OF read_tree_extend assms]
  show ?thesis by simp
qed

lemma copies_deepcopy: "copies (deepcopy n) (read_tree n)"
proof (induction n)
  case 0
  then show ?case by (simp add: copies_def)
next
  case (Suc n)
  show ?case
    unfolding copies_def
  proof (intro allI impI)
    fix h a t
    assume r: "read_tree (Suc n) h a = Some t"
    obtain c ts where t: "t = Tree c ts" by (cases t)
    from deepcopy_step [OF Suc r [unfolded t]] obtain e as' where
      d: "deepcopy (Suc n) h a = Some ((h @ e) @ [Object c as'], length (h @ e))"
      and as': "read_args (read_tree n (h @ e)) as' = Some ts"
      by blast
    from read_new_object [OF as'] d t
    have "deepcopy (Suc n) h a = Some (h @ (e @ [Object c as']), length (h @ e))
        \<and> read_tree (Suc n) (h @ (e @ [Object c as'])) (length (h @ e)) = Some t"
      by simp
    then show "\<exists>e a'. deepcopy (Suc n) h a = Some (h @ e, a')
        \<and> read_tree (Suc n) (h @ e) a' = Some t"
      by blast
  qed
qed


subsection \<open>The nodes that the traversal finds\<close>

lemma bfs_closed:
  "set q \<subseteq> set (bfs q) \<and> (\<forall>x \<in> set (bfs q). set (children x) \<subseteq> set (bfs q))"
proof (induction q rule: bfs.induct)
  case 1
  then show ?case by simp
next
  case (2 e queue)
  let ?r = "bfs (queue @ children e)"
  from 2 have q: "set queue \<subseteq> set ?r" and c: "set (children e) \<subseteq> set ?r"
    and cl: "\<forall>x \<in> set ?r. set (children x) \<subseteq> set ?r"
    by simp_all
  have b: "bfs (e # queue) = e # ?r" by simp
  show ?case
    unfolding b using q c cl by auto
qed

lemma bfs_child: "x \<in> set (bfs q) \<Longrightarrow> c \<in> set (children x) \<Longrightarrow> c \<in> set (bfs q)"
  using bfs_closed [of q] by blast

lemma find_all_iff: "x \<in> set (find_all K e) \<longleftrightarrow> x \<in> set (bfs [e]) \<and> isinstance x K"
  unfolding find_all_def by (simp only: set_filter mem_Collect_eq)

lemma map_result_Inl:
  "x \<in> set xs \<Longrightarrow> f x = Inl e \<Longrightarrow> \<exists>e'. map_result f xs = Inl e'"
  by (induction xs) (auto split: sum.splits)


section \<open>Empty input and statements that create no table\<close>

text \<open>
  Claim C9. When the parser finds no \<^verbatim>\<open>CREATE TABLE\<close> statement in the text (as for an empty
  or whitespace-only text, which parses to no statement or to one empty statement), the
  builder returns the catalog with no schema and raises nothing. For every input, a
  statement that is not a \<^verbatim>\<open>CREATE TABLE\<close> is skipped: the builder returns what it returns
  for the same statements without it, be it a catalog or an error.
\<close>

theorem empty_input_and_skipped_statements:
  "(parse sql_string = Inr statements \<longrightarrow> (\<forall>s \<in> set statements. \<not> is_create_table s) \<longrightarrow>
      build_catalog_from_sql parse sql sql_string search_path = Inr [])
   \<and> (parse sql_string = Inr (before @ stmt # after) \<longrightarrow> \<not> is_create_table stmt \<longrightarrow>
      parse' sql_string' = Inr (before @ after) \<longrightarrow>
      build_catalog_from_sql parse sql sql_string search_path
        = build_catalog_from_sql parse' sql sql_string' search_path)"
  by (simp add: build_catalog_from_sql_def create_tables_none create_tables_append
      create_tables_skip Catalog_def)

theorem empty_input_and_skipped_statements_witness:
  "build_catalog_from_sql (parsed [None]) no_sql ''  '' ''public'' = Inr []
   \<and> build_catalog_from_sql (parsed [Some (Other ''Drop'' []), Some create_without_pk]) no_sql
         ''DROP TABLE t; CREATE TABLE t (a INT)'' ''public''
     = build_catalog_from_sql (parsed [Some create_without_pk]) no_sql
         ''CREATE TABLE t (a INT)'' ''public''"
proof
  show "build_catalog_from_sql (parsed [None]) no_sql ''  '' ''public'' = Inr []"
    using empty_input_and_skipped_statements
      [of "parsed [None]" "''  ''" "[None]" no_sql "''public''"]
    by (simp add: parsed_def)
  show "build_catalog_from_sql (parsed [Some (Other ''Drop'' []), Some create_without_pk]) no_sql
          ''DROP TABLE t; CREATE TABLE t (a INT)'' ''public''
        = build_catalog_from_sql (parsed [Some create_without_pk]) no_sql
          ''CREATE TABLE t (a INT)'' ''public''"
    using empty_input_and_skipped_statements
      [of "parsed [Some (Other ''Drop'' []), Some create_without_pk]"
          "''DROP TABLE t; CREATE TABLE t (a INT)''" _
          no_sql "''public''" "[]" "Some (Other ''Drop'' [])" "[Some create_without_pk]"
          "parsed [Some create_without_pk]" "''CREATE TABLE t (a INT)''"]
    by (simp add: parsed_def)
qed

section \<open>A table without primary key\<close>

text \<open>
  Claim C2. When one of the \<^verbatim>\<open>CREATE TABLE\<close> statements of the input has no column with
  an inline \<^verbatim>\<open>PRIMARY KEY\<close> marker and no table-level \<^verbatim>\<open>PRIMARY KEY\<close> node, the call of
  \<^verbatim>\<open>build_catalog_from_sql\<close> ends with an error and hands no catalog to the caller,
  whatever the statements before it have added; the statement itself fails on every
  catalog it is processed on.
\<close>

theorem missing_primary_key_is_fatal:
  assumes "parse sql_string = Inr statements"
    and "Some statement \<in> set statements"
    and "is_create_table (Some statement)"
    and "find_exp PrimaryKey_cls statement = None"
    and "\<forall>c \<in> set (find_all ColumnDef_cls statement).
           any_kind PrimaryKeyColumnConstraint_cls (constraints c) \<noteq> Inr True"
  shows "(\<exists>e. build_catalog_from_sql parse sql sql_string search_path = Inl e)
         \<and> (\<forall>catalog. \<exists>e. process_statement sql search_path catalog statement = Inl e)"
proof -
  have fails: "\<forall>catalog. \<exists>e. process_statement sql search_path catalog statement = Inl e"
    using process_statement_no_pk [OF assms(4,5)] by blast
  have "statement \<in> set (create_tables statements)"
    using assms(2,3) by (rule create_tables_member)
  from process_statements_failure [OF this fails] assms(1) fails show ?thesis
    by (simp add: build_catalog_from_sql_def)
qed

theorem missing_primary_key_is_fatal_witness:
  "is_create_table (Some create_without_pk)
   \<and> find_exp PrimaryKey_cls create_without_pk = None
   \<and> (\<exists>e. build_catalog_from_sql (parsed [Some create_without_pk]) no_sql
             ''CREATE TABLE t (a INT)'' ''public'' = Inl e)"
proof -
  have h1: "parsed [Some create_without_pk] ''CREATE TABLE t (a INT)'' = Inr [Some create_without_pk]"
    by (simp add: parsed_def)
  have h2: "Some create_without_pk \<in> set [Some create_without_pk]"
    by simp
  have h3: "is_create_table (Some create_without_pk)"
    by code_simp
  have h4: "find_exp PrimaryKey_cls create_without_pk = None"
    by code_simp
  have h5: "\<forall>c \<in> set (find_all ColumnDef_cls create_without_pk).
              any_kind PrimaryKeyColumnConstraint_cls (constraints c) \<noteq> Inr True"
    by code_simp
  from missing_primary_key_is_fatal
      [where parse = "parsed [Some create_without_pk]"
         and sql_string = "''CREATE TABLE t (a INT)''" and sql = no_sql
         and search_path = "''public''", OF h1 h2 h3 h4 h5] h3 h4
  show ?thesis by blast
qed

section \<open>Normalisation of identifiers\<close>

text \<open>
  Claim C6 says that every identifier the builder consumes (schema, table or column name)
  keeps its exact case and characters when it is written quoted and is lower-cased when it
  is not. The table and the column name follow the rule; the schema name does not: for
  \<^verbatim>\<open>CREATE TABLE "MySchema"."Users" ("Id" INT PRIMARY KEY)\<close> the catalog holds the table
  \<^verbatim>\<open>Users\<close> with the column \<^verbatim>\<open>Id\<close> under the schema \<^verbatim>\<open>myschema\<close>.
\<close>

theorem quoted_schema_name_is_lowered:
  "build_catalog_from_sql (parsed [Some create_quoted]) no_sql
     ''CREATE TABLE \"MySchema\".\"Users\" (\"Id\" INT PRIMARY KEY)'' ''public''
   = Inr [(''myschema'',
           [(''Users'',
             \<lparr>table_columns =
                [\<lparr>name = ''Id'', column_type = ''INT'', real_name = ''Id'',
                  numeric_precision = None, numeric_scale = None, is_nullable = True,
                  fk_schema = None, fk_table = None, fk_column = None\<rparr>],
              unique_constraints =
                [\<lparr>columns = {''Id''}, constraint_type = PRIMARY_KEY\<rparr>]\<rparr>)])]"
  by code_simp

text \<open>
  What holds of the three kinds of name: an identifier node is normalised by the rule, and
  so are the table name and the column name that are identifiers; the schema name is the
  lower-cased text of the qualifier, quoted or not, and the default schema when the table
  is unqualified.
\<close>

lemma get_identifier_name_rule:
  "get_identifier_name (Identifier n True) = Inr n"
  "get_identifier_name (Identifier n False) = Inr (lower n)"
  by simp_all

lemma get_table_name_rule:
  "get_table_name sql (Table (Some (Identifier n True)) d) = Inr n"
  "get_table_name sql (Table (Some (Identifier n False)) d) = Inr (lower n)"
  by (simp_all add: get_table_name_def)

lemma get_column_name_rule:
  "get_column_name sql (ColumnDef (Some (Identifier n True)) k cs) = Inr n"
  "get_column_name sql (ColumnDef (Some (Identifier n False)) k cs) = Inr (lower n)"
  by (simp_all add: get_column_name_def)

lemma get_schema_name_lowered:
  "get_schema_name (Table t (Some (Identifier n q))) default_schema =
     (if n = [] then default_schema else lower n)"
  "get_schema_name (Table t None) default_schema = default_schema"
  by (simp_all add: get_schema_name_def)

lemma unquoted_names_are_lowered:
  "build_catalog_from_sql (parsed [Some create_unquoted]) no_sql
     ''CREATE TABLE MySchema.Users (Id INT PRIMARY KEY)'' ''public''
   = Inr [(''myschema'',
           [(''users'',
             \<lparr>table_columns =
                [\<lparr>name = ''id'', column_type = ''INT'', real_name = ''id'',
                  numeric_precision = None, numeric_scale = None, is_nullable = True,
                  fk_schema = None, fk_table = None, fk_column = None\<rparr>],
              unique_constraints =
                [\<lparr>columns = {''id''}, constraint_type = PRIMARY_KEY\<rparr>]\<rparr>)])]"
  by code_simp

section \<open>Numeric precision and scale\<close>

text \<open>
  Claim C7 says that for the four numeric type keywords the first type argument, if it is
  an integer literal, becomes the precision and the second the scale, as in
  \<^verbatim>\<open>NUMERIC(10,2)\<close>. In a parsed column definition no type argument is a \<^verbatim>\<open>Literal\<close> node: each
  one is a \<^verbatim>\<open>DataTypeParam\<close> node around the literal. \<^verbatim>\<open>_extract_datatype\<close> applies
  \<^verbatim>\<open>isinstance(..., exp.Literal)\<close> to the wrapper, so that it sets neither field: the column
  \<^verbatim>\<open>a NUMERIC(10, 2)\<close> is emitted with the type \<^verbatim>\<open>DECIMAL\<close> and without precision and scale.
\<close>

theorem parsed_type_arguments_are_ignored:
  "extract_datatype numeric_10_2_column = Inr (''DECIMAL'', None, None)
   \<and> build_catalog_from_sql (parsed [Some create_numeric]) no_sql
       ''CREATE TABLE t (a NUMERIC(10, 2) PRIMARY KEY)'' ''public''
     = Inr [(''public'',
             [(''t'',
               \<lparr>table_columns =
                  [\<lparr>name = ''a'', column_type = ''DECIMAL'', real_name = ''a'',
                    numeric_precision = None, numeric_scale = None, is_nullable = True,
                    fk_schema = None, fk_table = None, fk_column = None\<rparr>],
                unique_constraints =
                  [\<lparr>columns = {''a''}, constraint_type = PRIMARY_KEY\<rparr>]\<rparr>)])]"
  by code_simp

text \<open>
  The same holds of every column whose type arguments are all wrapped, whatever the
  keyword and the number of arguments.
\<close>

lemma literal_int_wrapped: "literal_int (type_param argument) = None"
  by (simp add: type_param_def)

lemma wrapped_arguments_give_no_precision:
  assumes "kind column_exp = Inr (Some (DataType datatype (map type_param arguments)))"
  shows "extract_datatype column_exp = Inr (datatype, None, None)"
  using assms
  by (cases arguments rule: remdups_adj.cases)
    (simp_all add: extract_datatype_def literal_int_wrapped)

text \<open>
  What the function computes on an arbitrary tree, in which an argument may be a bare
  \<^verbatim>\<open>Literal\<close> node: the precision is read from the first argument, and the scale from the
  second when there are exactly two arguments, both for the four numeric keywords only.
\<close>

lemma extract_datatype_on_any_tree:
  assumes "kind column_exp = Inr (Some (DataType datatype arguments))"
  shows "(datatype \<in> numeric_types \<longrightarrow>
            extract_datatype column_exp =
              Inr (datatype,
                   (case arguments of [] \<Rightarrow> None | p # _ \<Rightarrow> literal_int p),
                   (case arguments of [p, s] \<Rightarrow> literal_int s | _ \<Rightarrow> None)))
         \<and> (datatype \<notin> numeric_types \<longrightarrow>
            extract_datatype column_exp = Inr (datatype, None, None))
         \<and> (\<forall>e n. literal_int e = Some n \<longleftrightarrow>
              (\<exists>text. e = Literal text False \<and> py_int text = Some n))"
proof (intro conjI impI allI)
  assume "datatype \<in> numeric_types"
  with assms show "extract_datatype column_exp =
      Inr (datatype,
           (case arguments of [] \<Rightarrow> None | p # _ \<Rightarrow> literal_int p),
           (case arguments of [p, s] \<Rightarrow> literal_int s | _ \<Rightarrow> None))"
    by (cases arguments rule: remdups_adj.cases)
      (simp_all add: extract_datatype_def split: list.splits)
next
  assume "datatype \<notin> numeric_types"
  with assms show "extract_datatype column_exp = Inr (datatype, None, None)"
    by (simp add: extract_datatype_def)
next
  fix e n
  show "literal_int e = Some n \<longleftrightarrow> (\<exists>text. e = Literal text False \<and> py_int text = Some n)"
    by (cases e) auto
qed

section \<open>Primary keys declared inline and at table level\<close>

text \<open>
  Claim C1 says that the table of such a statement holds exactly one \<open>PRIMARY_KEY\<close>
  constraint. The catalog appends and looks for no duplicate: when the same table is
  created by two statements, each of them adds its constraint, and the table holds two.
\<close>

theorem table_created_twice_holds_two_primary_keys:
  "build_catalog_from_sql (parsed [Some create_pk_both, Some create_pk_both]) no_sql
     ''CREATE TABLE t (a INT PRIMARY KEY, b INT, PRIMARY KEY (a, b)); CREATE TABLE t (a INT PRIMARY KEY, b INT, PRIMARY KEY (a, b))''
     ''public''
   = Inr [(''public'',
           [(''t'',
             \<lparr>table_columns =
                [\<lparr>name = ''a'', column_type = ''INT'', real_name = ''a'',
                  numeric_precision = None, numeric_scale = None, is_nullable = True,
                  fk_schema = None, fk_table = None, fk_column = None\<rparr>,
                 \<lparr>name = ''b'', column_type = ''INT'', real_name = ''b'',
                  numeric_precision = None, numeric_scale = None, is_nullable = True,
                  fk_schema = None, fk_table = None, fk_column = None\<rparr>,
                 \<lparr>name = ''a'', column_type = ''INT'', real_name = ''a'',
                  numeric_precision = None, numeric_scale = None, is_nullable = True,
                  fk_schema = None, fk_table = None, fk_column = None\<rparr>,
                 \<lparr>name = ''b'', column_type = ''INT'', real_name = ''b'',
                  numeric_precision = None, numeric_scale = None, is_nullable = True,
                  fk_schema = None, fk_table = None, fk_column = None\<rparr>],
              unique_constraints =
                [\<lparr>columns = {''a'', ''b''}, constraint_type = PRIMARY_KEY\<rparr>,
                 \<lparr>columns = {''a'', ''b''}, constraint_type = PRIMARY_KEY\<rparr>]\<rparr>)])]"
  by code_simp

text \<open>
  Claim C1, amended. A \<^verbatim>\<open>CREATE TABLE\<close> statement that the builder processes normally and
  that has a table-level \<^verbatim>\<open>PRIMARY KEY\<close> node adds exactly one \<open>PRIMARY_KEY\<close> constraint to
  its table, so that a table which held none before the statement (a table that no
  earlier statement has created) holds exactly one afterwards; the columns of the
  constraint are the names of the columns with an inline \<^verbatim>\<open>PRIMARY KEY\<close> marker together
  with the names listed in the table-level node; and the constraint is added to the
  catalog that the loop over all column definitions has returned, in which every column
  of the statement is already present.
\<close>

theorem primary_key_merge:
  assumes "process_statement sql sp cat statement = Inr cat'"
    and "find_exp Table_cls statement = Some table_exp"
    and "get_table_name sql table_exp = Inr table_name"
    and "find_exp PrimaryKey_cls statement = Some pk_exp"
    and "s = get_schema_name table_exp sp"
    and "pk_cols = inline_primary_keys sql (find_all ColumnDef_cls statement)
                     \<union> listed_primary_keys sql pk_exp"
  shows "filter (\<lambda>k. constraint_type k = PRIMARY_KEY) (unique_constraints (get_table cat' s table_name))
           = filter (\<lambda>k. constraint_type k = PRIMARY_KEY) (unique_constraints (get_table cat s table_name))
             @ [\<lparr>columns = pk_cols, constraint_type = PRIMARY_KEY\<rparr>]
       \<and> ((\<forall>k \<in> set (unique_constraints (get_table cat s table_name)). constraint_type k \<noteq> PRIMARY_KEY)
            \<longrightarrow> filter (\<lambda>k. constraint_type k = PRIMARY_KEY)
                   (unique_constraints (get_table cat' s table_name))
                 = [\<lparr>columns = pk_cols, constraint_type = PRIMARY_KEY\<rparr>])
       \<and> (\<exists>fks cat1 pk uq uq2.
             process_columns sql sp fks s table_name (cat, {}, []) (find_all ColumnDef_cls statement)
               = Inr (cat1, pk, uq)
           \<and> length (table_columns (get_table cat1 s table_name))
               = length (table_columns (get_table cat s table_name))
                 + length (find_all ColumnDef_cls statement)
           \<and> unique_constraints (get_table cat1 s table_name)
               = unique_constraints (get_table cat s table_name)
           \<and> cat' = add_unique_constraints
                      (add_unique_constraint cat1 s table_name pk_cols PRIMARY_KEY)
                      s table_name uq2
           \<and> table_columns (get_table cat' s table_name) = table_columns (get_table cat1 s table_name))"
proof -
  from assms(1) obtain table_exp' table_name' fks cat1 pk uq pk2 uq2 where
    t': "find_exp Table_cls statement = Some table_exp'"
    and n': "get_table_name sql table_exp' = Inr table_name'"
    and cols: "process_columns sql sp fks (get_schema_name table_exp' sp) table_name' (cat, {}, [])
       (find_all ColumnDef_cls statement) = Inr (cat1, pk, uq)"
    and pk2: "process_primary_key sql (find_exp PrimaryKey_cls statement) pk = Inr pk2"
    and emit: "emit_constraints cat1 (get_schema_name table_exp' sp) table_name' pk2 uq2 = Inr cat'"
    by (rule process_statement_Inr)
  from t' n' assms(2,3) have eq: "table_exp' = table_exp" "table_name' = table_name"
    by simp_all
  note cols = cols [unfolded eq, folded assms(5)]
  note emit = emit [unfolded eq, folded assms(5)]
  from process_columns_result [OF cols] obtain infos where
    infos: "map_result (column_info sql sp fks) (find_all ColumnDef_cls statement) = Inr infos"
    and cat1: "cat1 = foldl (\<lambda>c i. add_column c s table_name (fst i)) cat infos"
    and pk: "pk = {} \<union> {name c | c u. (c, True, u) \<in> set infos}"
    by blast
  from pk inline_primary_keys_infos [OF infos]
  have pk_inline: "pk = inline_primary_keys sql (find_all ColumnDef_cls statement)"
    by simp
  from pk2 assms(4) obtain col_names where
    names: "map_result (primary_key_column sql) (expressions pk_exp) = Inr col_names"
    and pk2_eq: "pk2 = pk \<union> set col_names"
    by (auto simp: process_primary_key_def and_then_Inr)
  from map_result_set [OF names] have "listed_primary_keys sql pk_exp = set col_names"
    by (simp add: listed_primary_keys_def)
  with pk2_eq pk_inline assms(6) have pk2_cols: "pk2 = pk_cols"
    by simp
  note emit = emit [unfolded pk2_cols]
  have table1: "get_table cat1 s table_name =
      (get_table cat s table_name)\<lparr>table_columns :=
         table_columns (get_table cat s table_name) @ map fst infos\<rparr>"
    unfolding cat1 by (rule get_table_foldl_add_column)
  from map_result_Inr [OF infos]
  have len: "length infos = length (find_all ColumnDef_cls statement)"
    by simp
  have after: "get_table cat' s table_name = (get_table cat1 s table_name)\<lparr>unique_constraints :=
           unique_constraints (get_table cat1 s table_name)
             @ \<lparr>columns = pk_cols, constraint_type = PRIMARY_KEY\<rparr>
             # map (\<lambda>cs. \<lparr>columns = cs, constraint_type = UNIQUE\<rparr>) uq2\<rparr>"
    by (rule emit_constraints_Inr(3) [OF emit])
  have uniques: "filter (\<lambda>k. constraint_type k = PRIMARY_KEY)
      (map (\<lambda>cs. \<lparr>columns = cs, constraint_type = UNIQUE\<rparr>) uq2) = []"
    by (induction uq2) simp_all
  have delta: "filter (\<lambda>k. constraint_type k = PRIMARY_KEY) (unique_constraints (get_table cat' s table_name))
           = filter (\<lambda>k. constraint_type k = PRIMARY_KEY) (unique_constraints (get_table cat s table_name))
             @ [\<lparr>columns = pk_cols, constraint_type = PRIMARY_KEY\<rparr>]"
    by (simp add: after table1 uniques)
  have fresh: "(\<forall>k \<in> set (unique_constraints (get_table cat s table_name)). constraint_type k \<noteq> PRIMARY_KEY)
            \<longrightarrow> filter (\<lambda>k. constraint_type k = PRIMARY_KEY)
                   (unique_constraints (get_table cat' s table_name))
                 = [\<lparr>columns = pk_cols, constraint_type = PRIMARY_KEY\<rparr>]"
    unfolding delta by (simp add: filter_empty_conv)
  have order: "process_columns sql sp fks s table_name (cat, {}, []) (find_all ColumnDef_cls statement)
               = Inr (cat1, pk, uq)
           \<and> length (table_columns (get_table cat1 s table_name))
               = length (table_columns (get_table cat s table_name))
                 + length (find_all ColumnDef_cls statement)
           \<and> unique_constraints (get_table cat1 s table_name)
               = unique_constraints (get_table cat s table_name)
           \<and> cat' = add_unique_constraints
                      (add_unique_constraint cat1 s table_name pk_cols PRIMARY_KEY)
                      s table_name uq2
           \<and> table_columns (get_table cat' s table_name) = table_columns (get_table cat1 s table_name)"
  proof (intro conjI)
    show "cat' = add_unique_constraints
                      (add_unique_constraint cat1 s table_name pk_cols PRIMARY_KEY)
                      s table_name uq2"
      by (rule emit_constraints_Inr(2) [OF emit])
  qed (simp_all add: cols table1 len after)
  from delta fresh order show ?thesis by blast
qed

theorem primary_key_merge_witness:
  "process_statement no_sql ''public'' [] create_pk_both =
     Inr [(''public'',
           [(''t'',
             \<lparr>table_columns =
                [\<lparr>name = ''a'', column_type = ''INT'', real_name = ''a'',
                  numeric_precision = None, numeric_scale = None, is_nullable = True,
                  fk_schema = None, fk_table = None, fk_column = None\<rparr>,
                 \<lparr>name = ''b'', column_type = ''INT'', real_name = ''b'',
                  numeric_precision = None, numeric_scale = None, is_nullable = True,
                  fk_schema = None, fk_table = None, fk_column = None\<rparr>],
              unique_constraints =
                [\<lparr>columns = {''a'', ''b''}, constraint_type = PRIMARY_KEY\<rparr>]\<rparr>)])]
   \<and> inline_primary_keys no_sql (find_all ColumnDef_cls create_pk_both) = {''a''}
   \<and> (\<exists>pk_exp. find_exp PrimaryKey_cls create_pk_both = Some pk_exp
         \<and> listed_primary_keys no_sql pk_exp = {''a'', ''b''}
         \<and> filter (\<lambda>k. constraint_type k = PRIMARY_KEY)
             (unique_constraints
               (get_table (projr (process_statement no_sql ''public'' [] create_pk_both))
                  ''public'' ''t''))
           = [\<lparr>columns = inline_primary_keys no_sql (find_all ColumnDef_cls create_pk_both)
                          \<union> listed_primary_keys no_sql pk_exp,
               constraint_type = PRIMARY_KEY\<rparr>])"
proof -
  let ?result = "[(''public'',
           [(''t'',
             \<lparr>table_columns =
                [\<lparr>name = ''a'', column_type = ''INT'', real_name = ''a'',
                  numeric_precision = None, numeric_scale = None, is_nullable = True,
                  fk_schema = None, fk_table = None, fk_column = None\<rparr>,
                 \<lparr>name = ''b'', column_type = ''INT'', real_name = ''b'',
                  numeric_precision = None, numeric_scale = None, is_nullable = True,
                  fk_schema = None, fk_table = None, fk_column = None\<rparr>],
              unique_constraints =
                [\<lparr>columns = {''a'', ''b''}, constraint_type = PRIMARY_KEY\<rparr>]\<rparr>)])]"
  let ?pk = "PrimaryKey [Other ''Ordered'' [Column (Some (Identifier ''a'' False))],
                         Other ''Ordered'' [Column (Some (Identifier ''b'' False))]]"
  have h1: "process_statement no_sql ''public'' [] create_pk_both = Inr ?result"
    by code_simp
  have h2: "find_exp Table_cls create_pk_both = Some (Table (Some (Identifier ''t'' False)) None)"
    by code_simp
  have h3: "get_table_name no_sql (Table (Some (Identifier ''t'' False)) None) = Inr ''t''"
    by code_simp
  have h4: "find_exp PrimaryKey_cls create_pk_both = Some ?pk"
    by code_simp
  have h5: "get_schema_name (Table (Some (Identifier ''t'' False)) None) ''public'' = ''public''"
    by code_simp
  have i: "inline_primary_keys no_sql (find_all ColumnDef_cls create_pk_both) = {''a''}"
    by code_simp
  have l: "listed_primary_keys no_sql ?pk = {''a'', ''b''}"
    by code_simp
  have e: "unique_constraints (get_table [] ''public'' ''t'') = []"
    by (simp add: get_table_def get_schema_def empty_table_def)
  from primary_key_merge [OF h1 h2 h3 h4 refl refl, unfolded h5]
  have "filter (\<lambda>k. constraint_type k = PRIMARY_KEY)
          (unique_constraints (get_table ?result ''public'' ''t''))
        = [\<lparr>columns = inline_primary_keys no_sql (find_all ColumnDef_cls create_pk_both)
                          \<union> listed_primary_keys no_sql ?pk,
             constraint_type = PRIMARY_KEY\<rparr>]"
    by (simp add: e)
  with h1 h4 i l show ?thesis by auto
qed


section \<open>Precedence of the inline reference\<close>

text \<open>
  Claim C3. Let a statement be processed normally and let \<open>c\<close> be the column emitted for
  its \<open>i\<close>-th column definition. If the definition has an inline \<^verbatim>\<open>REFERENCES\<close> constraint,
  the three foreign-key fields of \<open>c\<close> are the schema, table and column read from that
  constraint, whatever the table-level mapping holds for the column's name; otherwise, if
  the pre-scanned mapping has an entry for the name, they are that entry; otherwise all
  three are absent.
\<close>

theorem foreign_key_precedence:
  assumes "process_statement sql sp cat statement = Inr cat'"
    and "find_exp Table_cls statement = Some table_exp"
    and "get_table_name sql table_exp = Inr table_name"
    and "process_foreign_keys sql sp Map.empty (find_all ForeignKey_cls statement) = Inr fks"
    and "i < length (find_all ColumnDef_cls statement)"
    and "column_exp = find_all ColumnDef_cls statement ! i"
    and "s = get_schema_name table_exp sp"
    and "c = table_columns (get_table cat' s table_name)
               ! (length (table_columns (get_table cat s table_name)) + i)"
  shows "get_column_name sql column_exp = Inr (name c)
     \<and> (\<forall>fk_constraint.
           next_kind Reference_cls (constraints column_exp) = Inr (Some fk_constraint) \<longrightarrow>
             inline_reference sql sp fk_constraint = Inr (fk_schema c, fk_table c, fk_column c)
           \<and> (\<exists>t d n q es ref_table.
                 kind fk_constraint
                   = Inr (Some (Reference (Some (Schema (Some (Table t d)) (Identifier n q # es)))))
               \<and> get_table_name sql (Table t d) = Inr ref_table
               \<and> fk_schema c = Some (get_schema_name (Table t d) sp)
               \<and> fk_table c = Some ref_table
               \<and> fk_column c = Some (if q then n else lower n)))
     \<and> (next_kind Reference_cls (constraints column_exp) = Inr None \<longrightarrow>
          (\<forall>ref_schema ref_table ref_column.
              fks (name c) = Some (ref_schema, ref_table, ref_column) \<longrightarrow>
                fk_schema c = Some ref_schema \<and> fk_table c = Some ref_table
                \<and> fk_column c = Some ref_column)
        \<and> (fks (name c) = None \<longrightarrow>
              fk_schema c = None \<and> fk_table c = None \<and> fk_column c = None))"
proof -
  from assms(1) obtain table_exp' table_name' fks' cat1 pk uq pk2 uq2 where
    t': "find_exp Table_cls statement = Some table_exp'"
    and n': "get_table_name sql table_exp' = Inr table_name'"
    and f': "process_foreign_keys sql sp Map.empty (find_all ForeignKey_cls statement) = Inr fks'"
    and cols: "process_columns sql sp fks' (get_schema_name table_exp' sp) table_name' (cat, {}, [])
       (find_all ColumnDef_cls statement) = Inr (cat1, pk, uq)"
    and emit: "emit_constraints cat1 (get_schema_name table_exp' sp) table_name' pk2 uq2 = Inr cat'"
    by (rule process_statement_Inr)
  from t' n' f' assms(2,3,4) have eq: "table_exp' = table_exp" "table_name' = table_name" "fks' = fks"
    by simp_all
  note cols = cols [unfolded eq, folded assms(7)]
  note emit = emit [unfolded eq, folded assms(7)]
  from process_columns_result [OF cols] obtain infos where
    infos: "map_result (column_info sql sp fks) (find_all ColumnDef_cls statement) = Inr infos"
    and cat1: "cat1 = foldl (\<lambda>c i. add_column c s table_name (fst i)) cat infos"
    by blast
  have table1: "table_columns (get_table cat1 s table_name) =
         table_columns (get_table cat s table_name) @ map fst infos"
    unfolding cat1 by (simp add: get_table_foldl_add_column)
  have "table_columns (get_table cat' s table_name) = table_columns (get_table cat1 s table_name)"
    by (simp add: emit_constraints_Inr(3) [OF emit])
  with table1 have after: "table_columns (get_table cat' s table_name) =
         table_columns (get_table cat s table_name) @ map fst infos"
    by simp
  from map_result_Inr [OF infos] assms(5,6)
  have len: "i < length infos" and ci: "column_info sql sp fks column_exp = Inr (infos ! i)"
    by simp_all
  from after len assms(8) have c: "c = fst (infos ! i)"
    by (simp add: nth_append)
  obtain is_pk is_unique where "column_info sql sp fks column_exp = Inr (c, is_pk, is_unique)"
    using ci c by (cases "infos ! i") simp
  note info = column_info_Inr [OF this]
  have inline: "inline_reference sql sp fk_constraint = Inr (fk_schema c, fk_table c, fk_column c)
           \<and> (\<exists>t d n q es ref_table.
                 kind fk_constraint
                   = Inr (Some (Reference (Some (Schema (Some (Table t d)) (Identifier n q # es)))))
               \<and> get_table_name sql (Table t d) = Inr ref_table
               \<and> fk_schema c = Some (get_schema_name (Table t d) sp)
               \<and> fk_table c = Some ref_table
               \<and> fk_column c = Some (if q then n else lower n))"
    if "next_kind Reference_cls (constraints column_exp) = Inr (Some fk_constraint)"
    for fk_constraint
  proof -
    from info(4) that
    have r: "inline_reference sql sp fk_constraint = Inr (fk_schema c, fk_table c, fk_column c)"
      by (simp add: resolve_foreign_key_def)
    from inline_reference_Inr [OF r] r show ?thesis
      by blast
  qed
  have mapped: "fk_schema c = Some ref_schema \<and> fk_table c = Some ref_table
                \<and> fk_column c = Some ref_column"
    if "next_kind Reference_cls (constraints column_exp) = Inr None"
      and "fks (name c) = Some (ref_schema, ref_table, ref_column)"
    for ref_schema ref_table ref_column
    using info(4) that by (simp add: resolve_foreign_key_def)
  have absent: "fk_schema c = None \<and> fk_table c = None \<and> fk_column c = None"
    if "next_kind Reference_cls (constraints column_exp) = Inr None" and "fks (name c) = None"
    using info(4) that by (simp add: resolve_foreign_key_def)
  from info(1) inline mapped absent show ?thesis by blast
qed

theorem foreign_key_precedence_witness:
  "(\<exists>catalog columns.
      process_statement no_sql ''public'' [] create_fk_precedence = Inr catalog
    \<and> columns = table_columns (get_table catalog ''public'' ''t'')
    \<and> fk_precedence_fks ''b'' = Some (''public'', ''other2'', ''y'')
    \<and> fk_fields_of (columns ! 1) = (Some ''public'', Some ''other'', Some ''x'')
    \<and> fk_fields_of (columns ! 2) = (Some ''public'', Some ''other2'', Some ''z'')
    \<and> fk_fields_of (columns ! 3) = (None, None, None))"
proof -
  let ?t = "Table (Some (Identifier ''t'' False)) None"
  have "\<not> isl (process_statement no_sql ''public'' [] create_fk_precedence)"
    by code_simp
  then obtain catalog where
    h1: "process_statement no_sql ''public'' [] create_fk_precedence = Inr catalog"
    by (cases "process_statement no_sql ''public'' [] create_fk_precedence") simp_all
  have h2: "find_exp Table_cls create_fk_precedence = Some ?t"
    by code_simp
  have h3: "get_table_name no_sql ?t = Inr ''t''"
    by code_simp
  have fa: "find_all ForeignKey_cls create_fk_precedence =
      [ForeignKey [Identifier ''b'' False] (Some (references ''other2'' ''y'')),
       ForeignKey [Identifier ''c'' False] (Some (references ''other2'' ''z''))]"
    by code_simp
  have e1: "foreign_key_entries no_sql ''public''
      (ForeignKey [Identifier ''b'' False] (Some (references ''other2'' ''y'')))
      = Inr [(''b'', (''public'', ''other2'', ''y''))]"
    by code_simp
  have e2: "foreign_key_entries no_sql ''public''
      (ForeignKey [Identifier ''c'' False] (Some (references ''other2'' ''z'')))
      = Inr [(''c'', (''public'', ''other2'', ''z''))]"
    by code_simp
  have h4: "process_foreign_keys no_sql ''public'' Map.empty
      (find_all ForeignKey_cls create_fk_precedence) = Inr fk_precedence_fks"
    by (simp add: fa e1 e2 fk_precedence_fks_def)
  have h5: "get_schema_name ?t ''public'' = ''public''"
    by code_simp
  have cols: "find_all ColumnDef_cls create_fk_precedence =
      [ColumnDef (Some (Identifier ''a'' False)) int_type
         [ColumnConstraint None PrimaryKeyColumnConstraint],
       ColumnDef (Some (Identifier ''b'' False)) int_type
         [ColumnConstraint None (references ''other'' ''x'')],
       ColumnDef (Some (Identifier ''c'' False)) int_type [],
       ColumnDef (Some (Identifier ''d'' False)) int_type []]"
    by code_simp
  have before: "table_columns (get_table [] ''public'' ''t'') = []"
    by (simp add: get_table_def get_schema_def empty_table_def)
  have nk: "next_kind Reference_cls [ColumnConstraint None (references ''other'' ''x'')]
      = Inr (Some (ColumnConstraint None (references ''other'' ''x'')))"
    "next_kind Reference_cls [] = Inr None"
    by (simp_all add: references_def isinstance_def)
  have ir: "inline_reference no_sql ''public'' (ColumnConstraint None (references ''other'' ''x''))
      = Inr (Some ''public'', Some ''other'', Some ''x'')"
    by code_simp
  let ?columns = "table_columns (get_table catalog ''public'' ''t'')"
  have len: "1 < length (find_all ColumnDef_cls create_fk_precedence)"
    "2 < length (find_all ColumnDef_cls create_fk_precedence)"
    "3 < length (find_all ColumnDef_cls create_fk_precedence)"
    by (simp_all add: cols)
  note inst = foreign_key_precedence [OF h1 h2 h3 h4 _ refl refl refl, unfolded h5 before cols]
  have b: "fk_fields_of (?columns ! 1) = (Some ''public'', Some ''other'', Some ''x'')"
    using inst [of 1] nk ir by (simp add: fk_fields_of_def)
  have lw: "lower ''c'' = ''c''" "lower ''d'' = ''d''"
    by code_simp+
  have n2: "name (?columns ! 2) = ''c''"
    using inst [of 2] by (simp add: get_column_name_def lw numeral_2_eq_2)
  have c: "fk_fields_of (?columns ! 2) = (Some ''public'', Some ''other2'', Some ''z'')"
    using inst [of 2] nk n2 by (simp add: fk_fields_of_def fk_precedence_fks_def numeral_2_eq_2)
  have n3: "name (?columns ! 3) = ''d''"
    using inst [of 3] by (simp add: get_column_name_def lw numeral_3_eq_3)
  have d: "fk_fields_of (?columns ! 3) = (None, None, None)"
    using inst [of 3] nk n3 by (simp add: fk_fields_of_def fk_precedence_fks_def numeral_3_eq_3)
  have "fk_precedence_fks ''b'' = Some (''public'', ''other2'', ''y'')"
    by (simp add: fk_precedence_fks_def)
  with h1 b c d show ?thesis by blast
qed

section \<open>Two table-level clauses for one column\<close>

text \<open>
  Claim C10 says that of two table-level \<^verbatim>\<open>FOREIGN KEY\<close> clauses that list the same column
  the one appearing later in the statement overwrites the other. The clauses are visited
  in the order of \<^verbatim>\<open>find_all\<close>, which is breadth-first: in the statement below the clause
  that references \<^verbatim>\<open>x\<close> is written first, but it is named and therefore lies one level
  deeper than the unnamed clause that references \<^verbatim>\<open>y\<close>; it is visited last, and the
  column is emitted with the reference to \<^verbatim>\<open>x\<close>.
\<close>

theorem later_clause_in_statement_loses:
  "expressions (the (this create_fk_named_first))
     = [column_a, Other ''Constraint'' [Identifier ''fk1'' False, fk_a_x], fk_a_y]
   \<and> find_all ForeignKey_cls create_fk_named_first = [fk_a_y, fk_a_x]
   \<and> process_statement no_sql ''public'' [] create_fk_named_first
     = Inr [(''public'',
             [(''t'',
               \<lparr>table_columns =
                  [\<lparr>name = ''a'', column_type = ''INT'', real_name = ''a'',
                    numeric_precision = None, numeric_scale = None, is_nullable = True,
                    fk_schema = Some ''public'', fk_table = Some ''x'',
                    fk_column = Some ''id''\<rparr>],
                unique_constraints =
                  [\<lparr>columns = {''a''}, constraint_type = PRIMARY_KEY\<rparr>]\<rparr>)])]"
  by code_simp

text \<open>
  Claim C10, amended. The pre-scan writes the entries of the clauses into the mapping in
  the order in which \<^verbatim>\<open>find_all\<close> visits the clauses, and reports no error for a column that
  is listed twice: the mapping is the result of all the assignments, in that order. When
  a clause lists a column and no clause visited after it does, the mapping holds that
  clause's reference for the column, whatever the clauses visited before it hold, and a
  column of that name without inline \<^verbatim>\<open>REFERENCES\<close> constraint is emitted with it. The
  clauses that are elements of the table's schema are visited in the order of the
  statement, and before every clause that lies deeper in the tree.
\<close>

theorem foreign_key_last_visited_wins:
  assumes "process_foreign_keys sql sp fks0 (earlier @ fk_exp # later) = Inr fks"
    and "foreign_key_entries sql sp fk_exp = Inr entries"
    and "map_of (rev entries) column_name = Some (ref_schema, ref_table, ref_column)"
    and "\<forall>l \<in> set later. \<forall>es. foreign_key_entries sql sp l = Inr es \<longrightarrow>
           column_name \<notin> fst ` set es"
  shows "fks column_name = Some (ref_schema, ref_table, ref_column)
     \<and> (next_kind Reference_cls (constraints column_exp) = Inr None \<longrightarrow>
          resolve_foreign_key sql sp fks column_exp column_name
            = Inr (Some ref_schema, Some ref_table, Some ref_column))
     \<and> (\<forall>fk_exps. process_foreign_keys sql sp fks0 fk_exps =
          (case map_result (foreign_key_entries sql sp) fk_exps of
             Inl e \<Rightarrow> Inl e
           | Inr ess \<Rightarrow> Inr (assign_all fks0 (concat ess))))
     \<and> (\<forall>t d items k.
          find_all ForeignKey_cls (Create (Some (Schema (Some (Table t d)) items)) k []) =
            filter (\<lambda>x. isinstance x ForeignKey_cls) items
            @ filter (\<lambda>x. isinstance x ForeignKey_cls)
                (bfs (children (Table t d) @ concat (map children items))))"
proof -
  from assms(1) obtain ess where
    ess: "map_result (foreign_key_entries sql sp) (earlier @ fk_exp # later) = Inr ess"
    and fks: "fks = assign_all fks0 (concat ess)"
    by (auto simp: process_foreign_keys_eq split: sum.splits)
  from map_result_append_Inr [OF ess] assms(2) obtain as bs where
    split: "ess = as @ entries # bs"
    and bs: "map_result (foreign_key_entries sql sp) later = Inr bs"
    by auto
  have "column_name \<notin> fst ` set (concat bs)"
  proof
    assume "column_name \<in> fst ` set (concat bs)"
    then obtain es where "es \<in> set bs" and "column_name \<in> fst ` set es"
      by auto
    with map_result_all_Inr [OF bs] assms(4) show False
      by blast
  qed
  then have none: "map_of (rev (concat bs)) column_name = None"
    by (simp add: map_of_eq_None_iff)
  have "fks column_name = (fks0 ++ map_of (rev (concat ess))) column_name"
    by (simp add: fks assign_all_map_add)
  also have "rev (concat ess) = rev (concat bs) @ rev entries @ rev (concat as)"
    by (simp add: split)
  also have "(fks0 ++ map_of (rev (concat bs) @ rev entries @ rev (concat as))) column_name
      = Some (ref_schema, ref_table, ref_column)"
    using none assms(3) by (simp add: map_add_def)
  finally have entry: "fks column_name = Some (ref_schema, ref_table, ref_column)" .
  have column: "next_kind Reference_cls (constraints column_exp) = Inr None \<longrightarrow>
          resolve_foreign_key sql sp fks column_exp column_name
            = Inr (Some ref_schema, Some ref_table, Some ref_column)"
    by (simp add: resolve_foreign_key_def entry)
  have order: "find_all ForeignKey_cls (Create (Some (Schema (Some (Table t d)) items)) k []) =
            filter (\<lambda>x. isinstance x ForeignKey_cls) items
            @ filter (\<lambda>x. isinstance x ForeignKey_cls)
                (bfs (children (Table t d) @ concat (map children items)))" for t d items k
    by (simp add: find_all_create_table isinstance_def)
  from entry column order process_foreign_keys_eq show ?thesis
    by blast
qed

theorem foreign_key_last_visited_wins_witness:
  "find_all ForeignKey_cls create_fk_twice = [fk_a_x, fk_a_y]
   \<and> foreign_key_entries no_sql ''public'' fk_a_x = Inr [(''a'', (''public'', ''x'', ''id''))]
   \<and> process_foreign_keys no_sql ''public'' Map.empty [fk_a_x, fk_a_y]
       = Inr [''a'' \<mapsto> (''public'', ''y'', ''id'')]
   \<and> resolve_foreign_key no_sql ''public'' [''a'' \<mapsto> (''public'', ''y'', ''id'')] column_a ''a''
       = Inr (Some ''public'', Some ''y'', Some ''id'')"
proof -
  have x: "foreign_key_entries no_sql ''public'' fk_a_x = Inr [(''a'', (''public'', ''x'', ''id''))]"
    by code_simp
  have y: "foreign_key_entries no_sql ''public'' fk_a_y = Inr [(''a'', (''public'', ''y'', ''id''))]"
    by code_simp
  have h1: "process_foreign_keys no_sql ''public'' Map.empty ([fk_a_x] @ fk_a_y # [])
      = Inr [''a'' \<mapsto> (''public'', ''y'', ''id'')]"
    by (simp add: x y)
  have h3: "map_of (rev [(''a'', (''public'', ''y'', ''id''))]) ''a''
      = Some (''public'', ''y'', ''id'')"
    by simp
  have h4: "\<forall>l \<in> set []. \<forall>es. foreign_key_entries no_sql ''public'' l = Inr es \<longrightarrow>
           ''a'' \<notin> fst ` set es"
    by simp
  have nk: "next_kind Reference_cls (constraints column_a) = Inr None"
    by (simp add: column_a_def isinstance_def)
  have order: "find_all ForeignKey_cls create_fk_twice = [fk_a_x, fk_a_y]"
    by code_simp
  from foreign_key_last_visited_wins [OF h1 y h3 h4, of column_a] nk
  have "resolve_foreign_key no_sql ''public'' [''a'' \<mapsto> (''public'', ''y'', ''id'')] column_a ''a''
       = Inr (Some ''public'', Some ''y'', Some ''id'')"
    by blast
  with order x h1 show ?thesis by simp
qed

section \<open>Unique constraints\<close>

text \<open>
  Claim C5 says that an inline \<^verbatim>\<open>UNIQUE\<close> marker contributes one single-column set and is no
  fatal error, and that a table-level \<^verbatim>\<open>UNIQUE (...)\<close> node contributes the set of its listed
  columns. The builder collects the table-level nodes with
  \<^verbatim>\<open>find_all(exp.UniqueColumnConstraint)\<close>, which also finds the node of every inline marker;
  the marker has no column list, and the assertion on the schema of the node fails. For a
  table-level node the names are read from \<^verbatim>\<open>unique_exp.expressions\<close>, which is empty: the
  listed columns are in the schema, and the set that is contributed is the empty set.
\<close>

theorem unique_markers_at_failing_inputs:
  "build_catalog_from_sql (parsed [Some create_inline_unique]) no_sql
     ''CREATE TABLE t (a INT PRIMARY KEY, b INT UNIQUE)'' ''public''
     = Inl (AssertionError ''Expected Schema expression in Unique constraint'')
   \<and> build_catalog_from_sql (parsed [Some create_table_unique]) no_sql
     ''CREATE TABLE t (a INT PRIMARY KEY, b INT, UNIQUE (a, b))'' ''public''
     = Inr [(''public'',
             [(''t'',
               \<lparr>table_columns =
                  [\<lparr>name = ''a'', column_type = ''INT'', real_name = ''a'',
                    numeric_precision = None, numeric_scale = None, is_nullable = True,
                    fk_schema = None, fk_table = None, fk_column = None\<rparr>,
                   \<lparr>name = ''b'', column_type = ''INT'', real_name = ''b'',
                    numeric_precision = None, numeric_scale = None, is_nullable = True,
                    fk_schema = None, fk_table = None, fk_column = None\<rparr>],
                unique_constraints =
                  [\<lparr>columns = {''a''}, constraint_type = PRIMARY_KEY\<rparr>,
                   \<lparr>columns = {}, constraint_type = UNIQUE\<rparr>]\<rparr>)])]"
  by code_simp

text \<open>
  Both failures are general. Whatever passes the assertion contributes the empty set; and
  a statement with an inline \<^verbatim>\<open>UNIQUE\<close> marker on one of its columns is never processed
  normally.
\<close>

lemma unique_columns_empty:
  assumes "isinstance unique_exp UniqueColumnConstraint_cls"
    and "unique_columns unique_exp = Inr cols"
  shows "cols = {}"
proof -
  from assms(1) obtain t where u: "unique_exp = UniqueColumnConstraint t"
    by (cases unique_exp) (simp_all add: isinstance_def)
  have "expressions unique_exp = []"
    unfolding u by simp
  with assms(2) show ?thesis
    by (cases "this unique_exp"; cases "the (this unique_exp)")
      (simp_all add: unique_columns_def)
qed


lemma inline_unique_marker_is_fatal:
  assumes "column_exp \<in> set (find_all ColumnDef_cls statement)"
    and "ColumnConstraint n (UniqueColumnConstraint None) \<in> set (constraints column_exp)"
  shows "\<exists>e. process_statement sql sp cat statement = Inl e"
proof (cases "process_statement sql sp cat statement")
  case (Inl e)
  then show ?thesis by blast
next
  case (Inr cat')
  from assms(1) have col: "column_exp \<in> set (bfs [statement])"
    by (simp only: find_all_iff)
  from assms(2) have "ColumnConstraint n (UniqueColumnConstraint None) \<in> set (children column_exp)"
    by (cases column_exp) simp_all
  from bfs_child [OF col this]
  have cc: "ColumnConstraint n (UniqueColumnConstraint None) \<in> set (bfs [statement])" .
  have "UniqueColumnConstraint None \<in> set (children (ColumnConstraint n (UniqueColumnConstraint None)))"
    by simp
  from bfs_child [OF cc this]
  have "UniqueColumnConstraint None \<in> set (bfs [statement])" .
  then have found: "UniqueColumnConstraint None \<in> set (find_all UniqueColumnConstraint_cls statement)"
    by (simp only: find_all_iff) (simp add: isinstance_def)
  have "unique_columns (UniqueColumnConstraint None)
      = Inl (AssertionError ''Expected Schema expression in Unique constraint'')"
    by (simp add: unique_columns_def)
  from map_result_Inl [where f = unique_columns, OF found this] obtain e where
    e: "map_result unique_columns (find_all UniqueColumnConstraint_cls statement) = Inl e"
    by blast
  from Inr obtain uq uq2 where
    "process_uniques (find_all UniqueColumnConstraint_cls statement) uq = Inr uq2"
    by (rule process_statement_Inr)
  with e show ?thesis
    by (simp add: process_uniques_def)
qed

section \<open>Subqueries in parentheses\<close>

text \<open>
  The walk at a parenthesis group \<open>p\<close>, in a token tree of a tokenizer that keeps its
  parentheses and adds no text, with the length of the text as fuel. If the leaves of \<open>p\<close>
  hold a \<^verbatim>\<open>SELECT\<close> token of type DML, the walk records the inner text of \<open>p\<close> with the label
  of the clause context and the depth plus one, then the tuples of the walk over the
  re-parsed inner text, then those of the tokens after \<open>p\<close>. If they hold none, it yields
  the tuples of the children of \<open>p\<close> and then those of the tokens after \<open>p\<close>.
\<close>

lemma walk_at_parenthesis:
  assumes "parser_ok parse"
    and "list_all paren_ok (p # rest)"
    and "has_class p Parenthesis_grp"
    and "length (concat (map token_value (p # rest))) \<le> fuel"
  shows "(has_select_inside p \<longrightarrow>
           (\<exists>nested after body.
              walk_statements parse (fuel - 1) (parse (inner_text_once p)) (depth + 1) = Some nested
            \<and> walk parse fuel rest current_clause depth = Some after
            \<and> walk parse fuel (p # rest) current_clause depth
                = Some ((inner_text_once p, clause_label current_clause, depth + 1) # nested @ after)
            \<and> token_value p = CHR ''('' # body @ '')'' \<and> inner_text_once p = strip body
            \<and> (\<forall>(text, label, d) \<in> set nested. depth + 2 \<le> d)))
       \<and> (\<not> has_select_inside p \<longrightarrow>
           (\<exists>inside after.
              walk parse fuel (tokens_of p) current_clause depth = Some inside
            \<and> walk parse fuel rest current_clause depth = Some after
            \<and> walk parse fuel (p # rest) current_clause depth = Some (inside @ after)))"
proof -
  from assms(3) have grp: "is_group p" and nows: "\<not> is_whitespace p"
    and clause: "update_clause p current_clause = current_clause"
    by (cases p; simp add: update_clause_def)+
  from assms(2) have ok_p: "paren_ok p" and ok_rest: "list_all paren_ok rest"
    by simp_all
  from assms(4) have len_p: "length (token_value p) \<le> fuel"
    and len_rest: "length (concat (map token_value rest)) \<le> fuel"
    by simp_all
  from walk_returns(1) [OF assms(1) ok_rest len_rest] obtain after where
    after: "walk parse fuel rest current_clause depth = Some after"
    by blast
  have sub: ?thesis if sel: "has_select_inside p"
  proof -
    from parenthesis_text [OF ok_p assms(3)] obtain body where
      body: "token_value p = CHR ''('' # body @ '')''" "inner_text_once p = strip body"
      by blast
    from inner_text_shorter [OF ok_p assms(3)] len_p obtain fuel' where
      fuel: "fuel = Suc fuel'" and inner: "length (inner_text_once p) \<le> fuel'"
      by (cases fuel) simp_all
    from assms(1)
    have "length (concat (map token_value (parse (inner_text_once p))))
            \<le> length (inner_text_once p)"
      and okp: "list_all paren_ok (parse (inner_text_once p))"
      by (simp_all add: parser_ok_def)
    with inner have "length (concat (map token_value (parse (inner_text_once p)))) \<le> fuel'"
      by simp
    from walk_returns(2) [OF assms(1) okp this] obtain nested where
      nested: "walk_statements parse fuel' (parse (inner_text_once p)) (depth + 1) = Some nested"
      by blast
    have "walk parse fuel (p # rest) current_clause depth
        = Some ((inner_text_once p, clause_label current_clause, depth + 1) # nested @ after)"
      using nows grp assms(3) sel clause fuel nested after by (simp add: Let_def)
    with nested after body walk_statements_deeper [OF nested] fuel sel show ?thesis
      by auto
  qed
  have nosub: ?thesis if nosel: "\<not> has_select_inside p"
  proof -
    from grp len_p have "length (concat (map token_value (tokens_of p))) \<le> fuel"
      by (simp add: token_value_tokens_of)
    from walk_returns(1) [OF assms(1) paren_ok_tokens_of [OF ok_p] this] obtain inside where
      inside: "walk parse fuel (tokens_of p) current_clause depth = Some inside"
      by blast
    have "walk parse fuel (p # rest) current_clause depth = Some (inside @ after)"
      using nows grp nosel clause inside after by (simp add: Let_def)
    with inside after nosel show ?thesis by auto
  qed
  from sub nosub show ?thesis by blast
qed

text \<open>The extractor ends on every text, and reports the nested example with depths 1 and 2.\<close>

lemma extract_subqueries_tokens_returns:
  assumes "parser_ok parse"
  shows "\<exists>rs. extract_subqueries_tokens parse sql = Some rs"
proof -
  from assms have "length (concat (map token_value (parse sql))) \<le> length sql"
    and "list_all paren_ok (parse sql)"
    by (simp_all add: parser_ok_def)
  from walk_returns(2) [OF assms this(2,1)] show ?thesis
    by (simp add: extract_subqueries_tokens_def)
qed

lemma extract_subqueries_tokens_example:
  "extract_subqueries_tokens example_parse
     ''SELECT * FROM t WHERE id IN (SELECT id FROM u WHERE x IN (SELECT y FROM v))''
   = Some [(''SELECT id FROM u WHERE x IN (SELECT y FROM v)'', ''IN'', 1),
           (''SELECT y FROM v'', ''IN'', 2)]"
  by code_simp

text \<open>
  Claim C4. For a tokenizer that keeps its parentheses and adds no text,
  \<^verbatim>\<open>extract_subqueries_tokens\<close> returns, and its result holds exactly the tuples of the
  subqueries to which the walk comes from the statements of the text, which it walks
  without clause context at depth 0: a tuple is in the result if and only if it is the
  inner text of a parenthesis group with a \<^verbatim>\<open>SELECT\<close> token of type DML among its leaves,
  the label of the clause context at that group, and the depth of that group plus one.
  By the rules of \<open>visits\<close>, a group without such a token is descended into with the same
  clause context and depth and yields no tuple of its own, and the statements of the
  re-parsed inner text of a subquery are walked without clause context one level deeper,
  so that a subquery directly in the text has depth 1 and a subquery in its inner text
  depth 2. The inner text of every parenthesis group that the walk comes to is the text
  of the group without its first and last character, the parentheses, and without the
  whitespace around the rest.
\<close>

theorem subqueries_are_recorded:
  assumes "parser_ok parse"
  shows "\<exists>rs. extract_subqueries_tokens parse sql = Some rs
       \<and> (\<forall>x. x \<in> set rs \<longleftrightarrow>
             (\<exists>stmt \<in> set (parse sql). \<exists>p clause depth.
                visits parse (tokens_of stmt) None 0 p clause depth
                \<and> has_class p Parenthesis_grp \<and> has_select_inside p
                \<and> x = (inner_text_once p, clause_label clause, depth + 1)))
       \<and> (\<forall>stmt \<in> set (parse sql). \<forall>p clause depth.
             visits parse (tokens_of stmt) None 0 p clause depth \<longrightarrow>
             has_class p Parenthesis_grp \<longrightarrow>
             (\<exists>body. token_value p = CHR ''('' # body @ '')''
                     \<and> inner_text_once p = strip body))"
proof -
  from extract_subqueries_tokens_returns [OF assms] obtain rs where
    rs: "extract_subqueries_tokens parse sql = Some rs"
    by blast
  then have "set rs = (\<Union>stmt \<in> set (parse sql). visited_subqueries parse (tokens_of stmt) None 0)"
    unfolding extract_subqueries_tokens_def by (rule walk_visited_subqueries(2))
  then have iff: "x \<in> set rs \<longleftrightarrow>
      (\<exists>stmt \<in> set (parse sql). \<exists>p clause depth.
         visits parse (tokens_of stmt) None 0 p clause depth
         \<and> has_class p Parenthesis_grp \<and> has_select_inside p
         \<and> x = (inner_text_once p, clause_label clause, depth + 1))" for x
    by (simp add: visited_subqueries_iff)
  have inner: "\<exists>body. token_value p = CHR ''('' # body @ '')'' \<and> inner_text_once p = strip body"
    if stmt: "stmt \<in> set (parse sql)"
      and vis: "visits parse (tokens_of stmt) None 0 p clause depth"
      and p: "has_class p Parenthesis_grp"
    for stmt p clause depth
  proof -
    from assms have "list_all paren_ok (parse sql)"
      by (simp add: parser_ok_def)
    with stmt have "paren_ok stmt"
      by (simp add: list_all_iff)
    then have "list_all paren_ok (tokens_of stmt)"
      by (rule paren_ok_tokens_of)
    with visits_paren_ok [OF assms vis] have "paren_ok p" .
    from parenthesis_text [OF this p] show ?thesis .
  qed
  from rs iff inner show ?thesis by blast
qed

theorem subqueries_are_recorded_witness:
  "extract_subqueries_tokens example_parse
     ''SELECT * FROM t WHERE id IN (SELECT id FROM u WHERE x IN (SELECT y FROM v))''
     = Some [(''SELECT id FROM u WHERE x IN (SELECT y FROM v)'', ''IN'', 1),
             (''SELECT y FROM v'', ''IN'', 2)]
   \<and> (\<exists>p clause. visits example_parse select_t None 0 p clause 1
         \<and> has_class p Parenthesis_grp \<and> has_select_inside p
         \<and> inner_text_once p = ''SELECT y FROM v'' \<and> clause_label clause = ''IN'')"
proof -
  let ?sql = "''SELECT * FROM t WHERE id IN (SELECT id FROM u WHERE x IN (SELECT y FROM v))''"
  have parse: "example_parse ?sql = [TokenList Statement_grp select_t]"
    by (simp add: example_parse_def)
  from subqueries_are_recorded [OF example_parse_ok, of ?sql] obtain rs where
    rs: "extract_subqueries_tokens example_parse ?sql = Some rs"
    and iff: "\<And>x. x \<in> set rs \<longleftrightarrow>
      (\<exists>stmt \<in> set (example_parse ?sql). \<exists>p clause depth.
         visits example_parse (tokens_of stmt) None 0 p clause depth
         \<and> has_class p Parenthesis_grp \<and> has_select_inside p
         \<and> x = (inner_text_once p, clause_label clause, depth + 1))"
    by blast
  from rs have "rs = [(''SELECT id FROM u WHERE x IN (SELECT y FROM v)'', ''IN'', 1),
             (''SELECT y FROM v'', ''IN'', 2)]"
    unfolding extract_subqueries_tokens_example by simp
  then have "(''SELECT y FROM v'', ''IN'', 2) \<in> set rs"
    by simp
  with iff obtain p clause depth where
    "visits example_parse select_t None 0 p clause depth"
    "has_class p Parenthesis_grp" "has_select_inside p"
    "(''SELECT y FROM v'', ''IN'', 2) = (inner_text_once p, clause_label clause, depth + 1)"
    unfolding parse by auto
  then have "visits example_parse select_t None 0 p clause 1
         \<and> has_class p Parenthesis_grp \<and> has_select_inside p
         \<and> inner_text_once p = ''SELECT y FROM v'' \<and> clause_label clause = ''IN''"
    by auto
  with extract_subqueries_tokens_example show ?thesis by blast
qed

section \<open>Removing the common table expressions\<close>

text \<open>
  Claim C8. For an absent tree \<^verbatim>\<open>remove_ctes\<close> returns the empty string and leaves the store
  as it is. For a tree that is read at address \<open>a\<close>, it returns the text that the generator
  renders for the same tree without the \<^verbatim>\<open>with\<close> argument of its root; every object that
  was in the store before the call is unchanged after it (only new objects are added),
  and the same tree is still read at \<open>a\<close>.
\<close>

theorem remove_ctes_leaves_input:
  "remove_ctes sql fuel h None = Some (h, [])
   \<and> (read_tree fuel h a = Some (Tree c args) \<longrightarrow>
        (\<exists>h'. remove_ctes sql fuel h (Some a)
                 = Some (h', sql (Tree c (filter (\<lambda>(k, v). k \<noteq> ''with'') args)))
             \<and> take (length h) h' = h
             \<and> read_tree fuel h' a = Some (Tree c args)))"
proof (intro conjI impI)
  show "remove_ctes sql fuel h None = Some (h, [])"
    by (simp add: remove_ctes_def)
next
  assume r: "read_tree fuel h a = Some (Tree c args)"
  then obtain n where fuel: "fuel = Suc n"
    by (cases fuel) simp_all
  from deepcopy_step [OF copies_deepcopy r [unfolded fuel]] obtain e as' where
    d: "deepcopy (Suc n) h a = Some ((h @ e) @ [Object c as'], length (h @ e))"
    and as': "read_args (read_tree n (h @ e)) as' = Some args"
    by blast
  let ?pop = "filter (\<lambda>(k, v). k \<noteq> ''with'')"
  let ?h' = "(h @ e) @ [Object c (?pop as')]"
  have "((h @ e) @ [Object c as'])[length (h @ e) := Object c (?pop as')] = ?h'"
    by (rule list_update_length)
  moreover have "((h @ e) @ [Object c as']) ! length (h @ e) = Object c as'"
    by (rule nth_append_length)
  ultimately have pop: "pop_arg ((h @ e) @ [Object c as']) (length (h @ e)) ''with'' = ?h'"
    unfolding pop_arg_def by simp
  from read_args_filter [OF as'] have "read_args (read_tree n (h @ e)) (?pop as') = Some (?pop args)" .
  from read_new_object [OF this]
  have copy: "read_tree (Suc n) ?h' (length (h @ e)) = Some (Tree c (?pop args))" .
  have result: "remove_ctes sql fuel h (Some a) = Some (?h', sql (Tree c (?pop args)))"
    unfolding remove_ctes_def fuel using d pop copy by (simp add: Let_def del: read_tree.simps deepcopy.simps)
  have frame: "take (length h) ?h' = h"
    by simp
  from read_tree_extend [OF r, of "e @ [Object c (?pop as')]"]
  have input: "read_tree fuel ?h' a = Some (Tree c args)"
    by simp
  from result frame input show "\<exists>h'. remove_ctes sql fuel h (Some a)
                 = Some (h', sql (Tree c (?pop args)))
             \<and> take (length h) h' = h
             \<and> read_tree fuel h' a = Some (Tree c args)"
    by blast
qed

theorem remove_ctes_leaves_input_witness:
  "\<exists>h'. remove_ctes arg_names 5 example_heap (Some 6) = Some (h', ''Select expressions from'')
        \<and> take (length example_heap) h' = example_heap
        \<and> read_tree 5 h' 6 = read_tree 5 example_heap 6"
proof -
  let ?args = "[(''with'',
                 Child (Tree ''With''
                   [(''expressions'',
                     Children
                       [Tree ''CTE''
                          [(''this'',
                            Child (Tree ''Select''
                              [(''expressions'',
                                Children [Tree ''Literal'' [(''this'', Atom ''1'')]])])),
                           (''alias'', Atom ''x'')]])])),
                (''expressions'', Children [Tree ''Star'' []]),
                (''from'', Child (Tree ''Table'' [(''this'', Atom ''x'')]))]"
  have r: "read_tree 5 example_heap 6 = Some (Tree ''Select'' ?args)"
    by code_simp
  have s: "arg_names (Tree ''Select'' (filter (\<lambda>(k, v). k \<noteq> ''with'') ?args))
      = ''Select expressions from''"
    by code_simp
  from remove_ctes_leaves_input [of arg_names 5 example_heap 6 "''Select''" ?args] r
  obtain h' where
    "remove_ctes arg_names 5 example_heap (Some 6)
       = Some (h', arg_names (Tree ''Select'' (filter (\<lambda>(k, v). k \<noteq> ''with'') ?args)))"
    and "take (length example_heap) h' = example_heap"
    and "read_tree 5 h' 6 = Some (Tree ''Select'' ?args)"
    by blast
  with r s show ?thesis by auto
qed

end
